theory Spec2Isabelle
  imports Main "HOL-Library.Word"
begin

unbundle bit_operations_syntax

section \<open>Data model (src/core/types.ts, src/core/constants.ts)\<close>

text \<open>
  A \<open>Uint8Array\<close> is a list of 8-bit words. A JavaScript \<open>number\<close> that holds a
  length or a block height is a natural number; every place where the double arithmetic
  of the source would leave the exactly representable integers is written out in the
  function concerned (see \<open>readVaruint_loop\<close>).
\<close>

type_synonym byte = "8 word"
type_synonym bytes = "byte list"

datatype HashOp = HashSha256 | HashSha1 | HashRipemd160 | HashKeccak256

datatype Operation =
    Append bytes
  | Prepend bytes
  | Sha256
  | Sha1
  | Ripemd160
  | Keccak256
  | Reverse
  | Hexlify

datatype Attestation =
    Bitcoin nat
  | Litecoin nat
  | Ethereum nat
  | Pending string
  | Unknown bytes bytes

datatype Timestamp =
  Timestamp (attestations: "Attestation list") (ops: "(Operation \<times> Timestamp) list")

record OtsFile =
  hashOp :: HashOp
  fileDigest :: bytes
  timestamp :: Timestamp

text \<open>
  The exceptions of the core, one constructor per message. The \<open>ParseError\<close>s of
  parser.ts are the first group; the plain \<open>Error\<close>s of operations.ts, verify.ts,
  hex.ts, upgrade.ts and stamp.ts follow, with \<open>RangeError\<close> of
  \<open>Uint8Array.set\<close>. \<open>Rejected m\<close> is an exception raised by a collaborator (a
  rejected \<open>fetch\<close>, a failed block lookup) with message \<open>m\<close>. \<open>ValueIsNaN\<close> is
  not an exception of the source: it marks the one point where the double arithmetic of
  \<open>readVaruint\<close> stops being integer arithmetic (see there).
\<close>

datatype error =
    UnexpectedEndOfFile
  | VaruintOverflow
  | VarbytesTooLarge
  | BadMagicHeader
  | UnsupportedVersion nat
  | UnknownHashOpTag byte
  | UnknownOperationTag byte
  | MaximumDepthExceeded
  | Keccak256NotSupported
  | FileDigestMismatch bytes bytes
  | OddLengthHexString
  | InvalidHexCharacter nat
  | RangeError
  | HttpStatus nat string
  | EmptyResponse string
  | ResponseTooLarge string
  | ExpectedDigestOf32Bytes nat
  | Rejected string
  | ValueIsNaN

text \<open>
  The results of verification and upgrade. The texts of \<open>Skipped\<close> and \<open>Error\<close>
  results and of the upgrade errors are kept as values that hold what the source
  interpolates into them.
\<close>

datatype reason =
    LitecoinNotVerified nat
  | EthereumNotVerified nat
  | UnknownAttestationType string

datatype message =
    ProofTreeExceedsMaximumDepth
  | OperationFailed error
  | CouldNotFetchBitcoinBlock nat error
  | ErrorMessage error

datatype VerifyResult =
    Verified nat string nat
  | PendingResult string
  | Failed nat bytes bytes
  | Skipped reason
  | ErrorResult message

record UpgradeResult =
  upgraded :: nat
  stillPending :: nat
  errors :: "message list"
  alreadyComplete :: bool

text \<open>
  The collaborators: the hash functions of crypto.ts, the block a lookup returns
  (bitcoin.ts), and the response of an HTTP request.
\<close>

record Crypto =
  sha256 :: "bytes \<Rightarrow> bytes"
  sha1 :: "bytes \<Rightarrow> bytes"
  ripemd160 :: "bytes \<Rightarrow> bytes"

record BlockInfo =
  blockHeight :: nat
  blockHash :: string
  merkleRoot :: string
  blockTimestamp :: nat

record HttpResponse =
  status :: nat
  body :: bytes

definition HEADER_MAGIC :: bytes where
  "HEADER_MAGIC =
    [0x00, 0x4f, 0x70, 0x65, 0x6e, 0x54, 0x69, 0x6d,
     0x65, 0x73, 0x74, 0x61, 0x6d, 0x70, 0x73, 0x00,
     0x00, 0x50, 0x72, 0x6f, 0x6f, 0x66, 0x00, 0xbf,
     0x89, 0xe2, 0xe8, 0x84, 0xe8, 0x92, 0x94]"

definition TAG_APPEND :: byte where "TAG_APPEND = 0xf0"
definition TAG_PREPEND :: byte where "TAG_PREPEND = 0xf1"
definition TAG_REVERSE :: byte where "TAG_REVERSE = 0xf2"
definition TAG_HEXLIFY :: byte where "TAG_HEXLIFY = 0xf3"
definition TAG_SHA1 :: byte where "TAG_SHA1 = 0x02"
definition TAG_RIPEMD160 :: byte where "TAG_RIPEMD160 = 0x03"
definition TAG_SHA256 :: byte where "TAG_SHA256 = 0x08"
definition TAG_KECCAK256 :: byte where "TAG_KECCAK256 = 0x67"

definition TAG_ATTESTATION :: byte where "TAG_ATTESTATION = 0x00"
definition TAG_FORK :: byte where "TAG_FORK = 0xff"

definition ATT_TAG_BITCOIN :: bytes where
  "ATT_TAG_BITCOIN = [0x05, 0x88, 0x96, 0x0d, 0x73, 0xd7, 0x19, 0x01]"
definition ATT_TAG_LITECOIN :: bytes where
  "ATT_TAG_LITECOIN = [0x06, 0x86, 0x9a, 0x0d, 0x73, 0xd7, 0x1b, 0x45]"
definition ATT_TAG_ETHEREUM :: bytes where
  "ATT_TAG_ETHEREUM = [0x30, 0xfe, 0x80, 0x87, 0xb5, 0xc7, 0xea, 0xd7]"
definition ATT_TAG_PENDING :: bytes where
  "ATT_TAG_PENDING = [0x83, 0xdf, 0xe3, 0x0d, 0x2e, 0xf9, 0x0c, 0x8e]"

lemmas tag_defs =
  TAG_APPEND_def TAG_PREPEND_def TAG_REVERSE_def TAG_HEXLIFY_def TAG_SHA1_def
  TAG_RIPEMD160_def TAG_SHA256_def TAG_KECCAK256_def TAG_ATTESTATION_def TAG_FORK_def

lemmas att_tag_defs =
  ATT_TAG_BITCOIN_def ATT_TAG_LITECOIN_def ATT_TAG_ETHEREUM_def ATT_TAG_PENDING_def

fun HASH_OP_DIGEST_LEN :: "HashOp \<Rightarrow> nat" where
  "HASH_OP_DIGEST_LEN HashSha256 = 32"
| "HASH_OP_DIGEST_LEN HashSha1 = 20"
| "HASH_OP_DIGEST_LEN HashRipemd160 = 20"
| "HASH_OP_DIGEST_LEN HashKeccak256 = 32"

definition TAG_TO_HASH_OP :: "byte \<Rightarrow> HashOp option" where
  "TAG_TO_HASH_OP tag =
    (if tag = TAG_SHA256 then Some HashSha256
     else if tag = TAG_SHA1 then Some HashSha1
     else if tag = TAG_RIPEMD160 then Some HashRipemd160
     else if tag = TAG_KECCAK256 then Some HashKeccak256
     else None)"

fun HASH_OP_TO_TAG :: "HashOp \<Rightarrow> byte" where
  "HASH_OP_TO_TAG HashSha256 = TAG_SHA256"
| "HASH_OP_TO_TAG HashSha1 = TAG_SHA1"
| "HASH_OP_TO_TAG HashRipemd160 = TAG_RIPEMD160"
| "HASH_OP_TO_TAG HashKeccak256 = TAG_KECCAK256"

section \<open>Byte utilities (src/core/hex.ts)\<close>

text \<open>
  \<open>constantTimeEqual\<close>: the length test, then the loop that ORs the XOR of every pair
  of bytes into \<open>result\<close>.
\<close>

function constantTimeEqual_loop :: "bytes \<Rightarrow> bytes \<Rightarrow> nat \<Rightarrow> byte \<Rightarrow> byte" where
  "constantTimeEqual_loop a b i result =
    (if i < length a
     then constantTimeEqual_loop a b (i + 1) (result OR ((a ! i) XOR (b ! i)))
     else result)"
  by pat_completeness auto
termination
  by (relation "measure (\<lambda>(a, b, i, result). length a - i)") auto

declare constantTimeEqual_loop.simps [simp del]

definition constantTimeEqual :: "bytes \<Rightarrow> bytes \<Rightarrow> bool" where
  "constantTimeEqual a b =
    (if length a \<noteq> length b then False
     else constantTimeEqual_loop a b 0 0 = 0)"

section \<open>The cursor (class Cursor of src/core/parser.ts)\<close>

text \<open>
  A cursor is a byte array \<open>data\<close> and a position \<open>pos\<close> that only moves forward and
  never passes \<open>data.length\<close>; no method looks at a byte before \<open>pos\<close>. The model
  keeps the unread part \<open>data[pos..]\<close>: \<open>remaining()\<close> is its length,
  \<open>pos >= data.length\<close> says it is empty, and \<open>pos + n > data.length\<close> says it has
  fewer than \<open>n\<close> bytes.
\<close>

type_synonym Cursor = bytes

definition remaining :: "Cursor \<Rightarrow> nat" where
  "remaining c = length c"

definition peek :: "Cursor \<Rightarrow> error + byte" where
  "peek c = (case c of [] \<Rightarrow> Inl UnexpectedEndOfFile | b # _ \<Rightarrow> Inr b)"

definition readByte :: "Cursor \<Rightarrow> error + (byte \<times> Cursor)" where
  "readByte c = (case c of [] \<Rightarrow> Inl UnexpectedEndOfFile | b # c' \<Rightarrow> Inr (b, c'))"

definition readBytes :: "Cursor \<Rightarrow> nat \<Rightarrow> error + (bytes \<times> Cursor)" where
  "readBytes c n =
    (if n > length c then Inl UnexpectedEndOfFile
     else Inr (take n c, drop n c))"

text \<open>
  \<open>readVaruint\<close>: the loop \<open>for (;;)\<close> with its two overflow guards. The guards keep
  \<open>value\<close> below \<open>2^53\<close>, so \<open>value += payload * (2 ** shift)\<close> is exact as long as
  \<open>2 ** shift\<close> is finite. From \<open>shift = 1029\<close> on (the 148th byte of one varuint)
  \<open>2 ** shift\<close> is \<open>Infinity\<close>, the guards leave only \<open>payload = 0\<close>, and
  \<open>0 * Infinity\<close> makes \<open>value\<close> \<open>NaN\<close>. The source goes on with \<open>NaN\<close>:
  \<open>readVaruint\<close> returns it at the next byte without continuation bit,
  \<open>readVarbytes\<close> lets it pass the length test, \<open>varuintFromSlice\<close> hands it out as
  a height. A natural number cannot hold it, and the model stops at that byte with the
  marker \<open>ValueIsNaN\<close>. Every other outcome of the model is the outcome of the
  source; the statements about the parser below are made on inputs where the model
  returns a value, or name the exception that it returns.
\<close>

function readVaruint_loop :: "nat \<Rightarrow> nat \<Rightarrow> Cursor \<Rightarrow> error + (nat \<times> Cursor)" where
  "readVaruint_loop val shift c =
    (case readByte c of
       Inl e \<Rightarrow> Inl e
     | Inr (byte, c') \<Rightarrow>
         (let payload = byte AND 0x7f in
          if shift \<ge> 56 \<and> payload > 0 then Inl VaruintOverflow
          else if shift \<ge> 49 \<and> payload > 15 then Inl VaruintOverflow
          else if shift \<ge> 1024 then Inl ValueIsNaN
          else
            (let val' = val + unat payload * 2 ^ shift;
                 shift' = shift + 7
             in if byte AND 0x80 = 0 then Inr (val', c')
                else readVaruint_loop val' shift' c')))"
  by pat_completeness auto
termination
  by (relation "measure (\<lambda>(val, shift, c). length c)")
     (auto simp: readByte_def split: list.splits)

declare readVaruint_loop.simps [simp del]

definition readVaruint :: "Cursor \<Rightarrow> error + (nat \<times> Cursor)" where
  "readVaruint c = readVaruint_loop 0 0 c"

definition readVarbytes :: "Cursor \<Rightarrow> error + (bytes \<times> Cursor)" where
  "readVarbytes c =
    (case readVaruint c of
       Inl e \<Rightarrow> Inl e
     | Inr (len, c') \<Rightarrow>
         if len > 1048576 then Inl VarbytesTooLarge
         else readBytes c' len)"

section \<open>The parser (src/core/parser.ts)\<close>


definition MAX_DEPTH :: nat where "MAX_DEPTH = 256"

definition parseHashOp :: "byte \<Rightarrow> error + HashOp" where
  "parseHashOp tag =
    (case TAG_TO_HASH_OP tag of
       None \<Rightarrow> Inl (UnknownHashOpTag tag)
     | Some op \<Rightarrow> Inr op)"

definition parseOperation :: "Cursor \<Rightarrow> error + (Operation \<times> Cursor)" where
  "parseOperation c =
    (case readByte c of
       Inl e \<Rightarrow> Inl e
     | Inr (tag, c1) \<Rightarrow>
         if tag = TAG_APPEND then
           (case readVarbytes c1 of Inl e \<Rightarrow> Inl e | Inr (d, c2) \<Rightarrow> Inr (Append d, c2))
         else if tag = TAG_PREPEND then
           (case readVarbytes c1 of Inl e \<Rightarrow> Inl e | Inr (d, c2) \<Rightarrow> Inr (Prepend d, c2))
         else if tag = TAG_REVERSE then Inr (Reverse, c1)
         else if tag = TAG_HEXLIFY then Inr (Hexlify, c1)
         else if tag = TAG_SHA256 then Inr (Sha256, c1)
         else if tag = TAG_SHA1 then Inr (Sha1, c1)
         else if tag = TAG_RIPEMD160 then Inr (Ripemd160, c1)
         else if tag = TAG_KECCAK256 then Inr (Keccak256, c1)
         else Inl (UnknownOperationTag tag))"

definition varuintFromSlice :: "bytes \<Rightarrow> error + nat" where
  "varuintFromSlice data =
    (case readVaruint data of Inl e \<Rightarrow> Inl e | Inr (v, c') \<Rightarrow> Inr v)"

definition parseAttestation :: "(bytes \<Rightarrow> string) \<Rightarrow> Cursor \<Rightarrow> error + (Attestation \<times> Cursor)" where
  "parseAttestation decode c =
    (case readBytes c 8 of
       Inl e \<Rightarrow> Inl e
     | Inr (tag, c1) \<Rightarrow>
        (case readVarbytes c1 of
           Inl e \<Rightarrow> Inl e
         | Inr (payload, c2) \<Rightarrow>
             if constantTimeEqual tag ATT_TAG_BITCOIN then
               (case varuintFromSlice payload of Inl e \<Rightarrow> Inl e | Inr h \<Rightarrow> Inr (Bitcoin h, c2))
             else if constantTimeEqual tag ATT_TAG_LITECOIN then
               (case varuintFromSlice payload of Inl e \<Rightarrow> Inl e | Inr h \<Rightarrow> Inr (Litecoin h, c2))
             else if constantTimeEqual tag ATT_TAG_ETHEREUM then
               (case varuintFromSlice payload of Inl e \<Rightarrow> Inl e | Inr h \<Rightarrow> Inr (Ethereum h, c2))
             else if constantTimeEqual tag ATT_TAG_PENDING then
               (case readVarbytes payload of
                  Inl e \<Rightarrow> Inl e
                | Inr (uriBytes, innerCursor) \<Rightarrow> Inr (Pending (decode uriBytes), c2))
             else Inr (Unknown tag payload, c2)))"

function parseTimestamp :: "(bytes \<Rightarrow> string) \<Rightarrow> Cursor \<Rightarrow> nat \<Rightarrow> error + (Timestamp \<times> Cursor)"
  and parseTimestamp_forks ::
    "(bytes \<Rightarrow> string) \<Rightarrow> Cursor \<Rightarrow> Attestation list \<Rightarrow> (Operation \<times> Timestamp) list \<Rightarrow> nat
      \<Rightarrow> error + (Cursor \<times> Attestation list \<times> (Operation \<times> Timestamp) list)"
  and parseTimestampBranch ::
    "(bytes \<Rightarrow> string) \<Rightarrow> Cursor \<Rightarrow> Attestation list \<Rightarrow> (Operation \<times> Timestamp) list \<Rightarrow> nat
      \<Rightarrow> error + (Cursor \<times> Attestation list \<times> (Operation \<times> Timestamp) list)"
where
  "parseTimestamp decode c depth =
    (if depth > MAX_DEPTH then Inl MaximumDepthExceeded
     else
       (case parseTimestamp_forks decode c [] [] depth of
          Inl e \<Rightarrow> Inl e
        | Inr (c1, atts1, ops1) \<Rightarrow>
            if remaining c1 > 0 then
              (case parseTimestampBranch decode c1 atts1 ops1 depth of
                 Inl e \<Rightarrow> Inl e
               | Inr (c2, atts2, ops2) \<Rightarrow> Inr (Timestamp atts2 ops2, c2))
            else Inr (Timestamp atts1 ops1, c1)))"
| "parseTimestamp_forks decode c atts0 ops0 depth =
    (if remaining c > 0 \<and> peek c = Inr TAG_FORK then
       (case readByte c of
          Inl e \<Rightarrow> Inl e
        | Inr (fork, c1) \<Rightarrow>
            (case parseTimestampBranch decode c1 atts0 ops0 depth of
               Inl e \<Rightarrow> Inl e
             | Inr (c2, atts2, ops2) \<Rightarrow> parseTimestamp_forks decode c2 atts2 ops2 depth))
     else Inr (c, atts0, ops0))"
| "parseTimestampBranch decode c atts0 ops0 depth =
    (case peek c of
       Inl e \<Rightarrow> Inl e
     | Inr tag \<Rightarrow>
         if tag = TAG_ATTESTATION then
           (case readByte c of
              Inl e \<Rightarrow> Inl e
            | Inr (zero, c1) \<Rightarrow>
                (case parseAttestation decode c1 of
                   Inl e \<Rightarrow> Inl e
                 | Inr (att, c2) \<Rightarrow> Inr (c2, atts0 @ [att], ops0)))
         else
           (case parseOperation c of
              Inl e \<Rightarrow> Inl e
            | Inr (op, c1) \<Rightarrow>
                (case parseTimestamp decode c1 (depth + 1) of
                   Inl e \<Rightarrow> Inl e
                 | Inr (child, c2) \<Rightarrow> Inr (c2, atts0, ops0 @ [(op, child)]))))"
  by pat_completeness auto


lemma readByte_len: "readByte c = Inr (b, c') \<Longrightarrow> length c' < length c"
  by (auto simp: readByte_def split: list.splits)

lemma readBytes_len: "readBytes c n = Inr (bs, c') \<Longrightarrow> length c' \<le> length c"
  by (auto simp: readBytes_def split: if_splits)

lemma readVaruint_loop_Nil: "readVaruint_loop v s [] = Inl UnexpectedEndOfFile"
  by (subst readVaruint_loop.simps) (simp add: readByte_def)

lemma readVaruint_loop_Cons:
  "readVaruint_loop v s (b # c) =
    (if s \<ge> 56 \<and> b AND 0x7f > 0 then Inl VaruintOverflow
     else if s \<ge> 49 \<and> b AND 0x7f > 15 then Inl VaruintOverflow
     else if s \<ge> 1024 then Inl ValueIsNaN
     else if b AND 0x80 = 0 then Inr (v + unat (b AND 0x7f) * 2 ^ s, c)
     else readVaruint_loop (v + unat (b AND 0x7f) * 2 ^ s) (s + 7) c)"
  by (subst readVaruint_loop.simps) (simp add: readByte_def Let_def)

lemma readVaruint_loop_len:
  "readVaruint_loop v s c = Inr (n, c') \<Longrightarrow> length c' < length c"
proof (induction c arbitrary: v s)
  case Nil
  then show ?case by (simp add: readVaruint_loop_Nil)
next
  case (Cons b c)
  from Cons.prems show ?case
    by (auto simp: readVaruint_loop_Cons split: if_splits dest: Cons.IH)
qed

lemma readVarbytes_len: "readVarbytes c = Inr (bs, c') \<Longrightarrow> length c' < length c"
  by (auto simp: readVarbytes_def readVaruint_def split: sum.splits if_splits
           dest!: readVaruint_loop_len readBytes_len)

lemma parseOperation_len: "parseOperation c = Inr (op, c') \<Longrightarrow> length c' < length c"
  by (auto simp: parseOperation_def split: sum.splits if_splits
           dest!: readByte_len readVarbytes_len)

lemma parseAttestation_len: "parseAttestation decode c = Inr (a, c') \<Longrightarrow> length c' < length c"
  by (auto simp: parseAttestation_def split: sum.splits if_splits
           dest!: readBytes_len readVarbytes_len)

lemma parse_dom_len:
  "parseTimestamp_parseTimestamp_forks_parseTimestampBranch_dom (Inl (decode, c, depth)) \<Longrightarrow>
     parseTimestamp decode c depth = Inr (t, c') \<Longrightarrow> length c' \<le> length c"
  "parseTimestamp_parseTimestamp_forks_parseTimestampBranch_dom (Inr (Inl (decode, c, atts0, ops0, depth))) \<Longrightarrow>
     parseTimestamp_forks decode c atts0 ops0 depth = Inr (c', atts', ops') \<Longrightarrow> length c' \<le> length c"
  "parseTimestamp_parseTimestamp_forks_parseTimestampBranch_dom (Inr (Inr (decode, c, atts0, ops0, depth))) \<Longrightarrow>
     parseTimestampBranch decode c atts0 ops0 depth = Inr (c', atts', ops') \<Longrightarrow> length c' < length c"
proof (induction decode c depth and decode c atts0 ops0 depth and decode c atts0 ops0 depth
       arbitrary: t c' and c' atts' ops' and c' atts' ops'
       rule: parseTimestamp_parseTimestamp_forks_parseTimestampBranch.pinduct)
  case (1 decode c depth)
  from "1.prems" "1.hyps" have nd: "\<not> MAX_DEPTH < depth"
    by (auto simp: parseTimestamp.psimps split: if_splits)
  from "1.prems" "1.hyps" nd obtain c1 atts1 ops1 where
    f: "parseTimestamp_forks decode c [] [] depth = Inr (c1, atts1, ops1)"
    by (auto simp: parseTimestamp.psimps split: sum.splits)
  have l1: "length c1 \<le> length c" using "1.IH"(1)[OF nd f] .
  show ?case
  proof (cases "0 < remaining c1")
    case True
    with "1.prems" "1.hyps" nd f obtain atts2 ops2 where
      b: "parseTimestampBranch decode c1 atts1 ops1 depth = Inr (c', atts2, ops2)"
      by (auto simp: parseTimestamp.psimps split: sum.splits)
    have "length c' < length c1" using "1.IH"(2)[OF nd f refl refl True b] .
    with l1 show ?thesis by simp
  next
    case False
    with "1.prems" "1.hyps" nd f have "c' = c1"
      by (auto simp: parseTimestamp.psimps)
    with l1 show ?thesis by simp
  qed
next
  case (2 decode c atts0 ops0 depth)
  show ?case
  proof (cases "0 < remaining c \<and> peek c = Inr TAG_FORK")
    case False
    with "2.prems" "2.hyps" show ?thesis
      by (auto simp: parseTimestamp_forks.psimps)
  next
    case True
    with "2.prems" "2.hyps" obtain fork c1 where r: "readByte c = Inr (fork, c1)"
      by (auto simp: parseTimestamp_forks.psimps split: sum.splits)
    with True "2.prems" "2.hyps" obtain c2 atts2 ops2 where
      b: "parseTimestampBranch decode c1 atts0 ops0 depth = Inr (c2, atts2, ops2)"
      by (auto simp: parseTimestamp_forks.psimps split: sum.splits)
    with True r "2.prems" "2.hyps" have
      f: "parseTimestamp_forks decode c2 atts2 ops2 depth = Inr (c', atts', ops')"
      by (auto simp: parseTimestamp_forks.psimps)
    have "length c2 < length c1" using "2.IH"(1)[OF True r refl b] .
    moreover have "length c' \<le> length c2" using "2.IH"(2)[OF True r refl b refl refl f] .
    moreover have "length c1 < length c" using r by (rule readByte_len)
    ultimately show ?thesis by simp
  qed
next
  case (3 decode c atts0 ops0 depth)
  from "3.prems" "3.hyps" obtain tag where p: "peek c = Inr tag"
    by (auto simp: parseTimestampBranch.psimps split: sum.splits)
  show ?case
  proof (cases "tag = TAG_ATTESTATION")
    case True
    with p "3.prems" "3.hyps" show ?thesis
      by (auto simp: parseTimestampBranch.psimps split: sum.splits
               dest!: readByte_len parseAttestation_len)
  next
    case False
    with p "3.prems" "3.hyps" obtain op c1 where o: "parseOperation c = Inr (op, c1)"
      by (auto simp: parseTimestampBranch.psimps split: sum.splits)
    with False p "3.prems" "3.hyps" obtain child where
      t: "parseTimestamp decode c1 (depth + 1) = Inr (child, c')"
      by (auto simp: parseTimestampBranch.psimps split: sum.splits)
    have "length c' \<le> length c1" using "3.IH"[OF p False o refl t] .
    moreover have "length c1 < length c" using o by (rule parseOperation_len)
    ultimately show ?thesis by simp
  qed
qed

termination parseTimestamp
proof (relation "inv_image (less_than <*lex*> less_than)
    (\<lambda>x. case x of
        Inl (decode, c, depth) \<Rightarrow> (3 * (257 - depth), length c)
      | Inr (Inl (decode, c, atts0, ops0, depth)) \<Rightarrow> (3 * (256 - depth) + 2, length c)
      | Inr (Inr (decode, c, atts0, ops0, depth)) \<Rightarrow> (3 * (256 - depth) + 1, length c))",
    goal_cases)
  case 1
  show ?case by (intro wf_inv_image wf_lex_prod wf_less_than)
next
  case (2 decode c depth)
  then show ?case by (simp add: MAX_DEPTH_def; linarith)
next
  case (3 decode c depth x2 x y xa ya)
  then show ?case by (simp add: MAX_DEPTH_def; linarith)
next
  case (4 decode c atts0 ops0 depth x2 x y)
  then show ?case by (simp; linarith)
next
  case (5 decode c atts0 ops0 depth x2 x y x2a xa ya xb yb)
  then show ?case
    using parse_dom_len(3)[of decode y atts0 ops0 depth xa xb yb] readByte_len[of c x y]
    by simp
next
  case (6 decode c atts0 ops0 depth x2 x2a x y)
  then show ?case by (simp; linarith)
qed

declare parseTimestamp.simps [simp del]
declare parseTimestamp_forks.simps [simp del]
declare parseTimestampBranch.simps [simp del]

definition parseOts :: "(bytes \<Rightarrow> string) \<Rightarrow> bytes \<Rightarrow> error + OtsFile" where
  "parseOts decode data =
    (case readBytes data (length HEADER_MAGIC) of
       Inl e \<Rightarrow> Inl e
     | Inr (header, c1) \<Rightarrow>
         if \<not> constantTimeEqual header HEADER_MAGIC then Inl BadMagicHeader
         else
           (case readVaruint c1 of
              Inl e \<Rightarrow> Inl e
            | Inr (version, c2) \<Rightarrow>
                if version \<noteq> 1 then Inl (UnsupportedVersion version)
                else
                  (case readByte c2 of
                     Inl e \<Rightarrow> Inl e
                   | Inr (tag, c3) \<Rightarrow>
                       (case parseHashOp tag of
                          Inl e \<Rightarrow> Inl e
                        | Inr hop \<Rightarrow>
                            (case readBytes c3 (HASH_OP_DIGEST_LEN hop) of
                               Inl e \<Rightarrow> Inl e
                             | Inr (digest, c4) \<Rightarrow>
                                 (case parseTimestamp decode c4 0 of
                                    Inl e \<Rightarrow> Inl e
                                  | Inr (ts, c5) \<Rightarrow>
                                      Inr \<lparr>hashOp = hop, fileDigest = digest,
                                           timestamp = ts\<rparr>))))))"

definition parseTimestampFromBytes :: "(bytes \<Rightarrow> string) \<Rightarrow> bytes \<Rightarrow> error + Timestamp" where
  "parseTimestampFromBytes decode data =
    (case parseTimestamp decode data 0 of
       Inl e \<Rightarrow> Inl e
     | Inr (ts, c') \<Rightarrow> Inr ts)"

section \<open>The writer (src/core/writer.ts)\<close>

text \<open>
  \<open>ByteBuffer\<close> is the growing array \<open>chunks\<close>; every writer takes the buffer and
  returns it with the pushed bytes at its end.
\<close>

type_synonym ByteBuffer = bytes

definition push :: "ByteBuffer \<Rightarrow> byte \<Rightarrow> ByteBuffer" where
  "push buf b = buf @ [b]"

definition extend :: "ByteBuffer \<Rightarrow> bytes \<Rightarrow> ByteBuffer" where
  "extend buf bs = buf @ bs"

text \<open>
  \<open>writeVaruint\<close>: \<open>v & 0x7f\<close> is \<open>v mod 128\<close> and \<open>Math.floor(v / 128)\<close> is
  \<open>v div 128\<close> on every non-negative integer a double holds.
\<close>

function writeVaruint :: "ByteBuffer \<Rightarrow> nat \<Rightarrow> ByteBuffer" where
  "writeVaruint buf v =
    (let byte = (of_nat (v mod 128) :: byte);
         v' = v div 128
     in if v' \<noteq> 0 then writeVaruint (push buf (byte OR 0x80)) v'
        else push buf byte)"
  by pat_completeness auto
termination
  by (relation "measure (\<lambda>(buf, v). v)") auto

declare writeVaruint.simps [simp del]

definition writeVarbytes :: "ByteBuffer \<Rightarrow> bytes \<Rightarrow> ByteBuffer" where
  "writeVarbytes buf data = extend (writeVaruint buf (length data)) data"

text \<open>
  Strings. A JavaScript string is kept as the list of the bytes of its UTF-8 encoding,
  so \<open>new TextEncoder().encode(s)\<close> reads the bytes off. \<open>new TextDecoder().decode\<close>
  replaces malformed input and drops a byte order mark; it is a parameter \<open>decode\<close> of
  the parser, and \<open>textDecodeAscii\<close> is what it does on bytes below \<open>0x80\<close>.
\<close>

definition textEncode :: "string \<Rightarrow> bytes" where
  "textEncode s = map (\<lambda>ch. of_nat (of_char ch)) s"

definition textDecodeAscii :: "bytes \<Rightarrow> string" where
  "textDecodeAscii bs = map (\<lambda>b. char_of (unat b)) bs"

fun writeOperation :: "ByteBuffer \<Rightarrow> Operation \<Rightarrow> ByteBuffer" where
  "writeOperation buf (Append d) = writeVarbytes (push buf TAG_APPEND) d"
| "writeOperation buf (Prepend d) = writeVarbytes (push buf TAG_PREPEND) d"
| "writeOperation buf Sha256 = push buf (HASH_OP_TO_TAG HashSha256)"
| "writeOperation buf Sha1 = push buf (HASH_OP_TO_TAG HashSha1)"
| "writeOperation buf Ripemd160 = push buf (HASH_OP_TO_TAG HashRipemd160)"
| "writeOperation buf Keccak256 = push buf (HASH_OP_TO_TAG HashKeccak256)"
| "writeOperation buf Reverse = push buf TAG_REVERSE"
| "writeOperation buf Hexlify = push buf TAG_HEXLIFY"

fun writeAttestation :: "ByteBuffer \<Rightarrow> Attestation \<Rightarrow> ByteBuffer" where
  "writeAttestation buf (Bitcoin h) =
    (let buf1 = extend (push buf TAG_ATTESTATION) ATT_TAG_BITCOIN;
         payload = writeVaruint [] h
     in writeVarbytes buf1 payload)"
| "writeAttestation buf (Litecoin h) =
    (let buf1 = extend (push buf TAG_ATTESTATION) ATT_TAG_LITECOIN;
         payload = writeVaruint [] h
     in writeVarbytes buf1 payload)"
| "writeAttestation buf (Ethereum h) =
    (let buf1 = extend (push buf TAG_ATTESTATION) ATT_TAG_ETHEREUM;
         payload = writeVaruint [] h
     in writeVarbytes buf1 payload)"
| "writeAttestation buf (Pending uri) =
    (let buf1 = extend (push buf TAG_ATTESTATION) ATT_TAG_PENDING
     in writeVarbytes buf1 (textEncode uri))"
| "writeAttestation buf (Unknown tag payload) =
    (let buf1 = extend (push buf TAG_ATTESTATION) tag
     in writeVarbytes buf1 payload)"

text \<open>
  \<open>writeTimestamp\<close>: the two \<open>for\<close> loops share the counter \<open>branchIdx\<close>; a fork
  marker goes before every branch but the last.
\<close>

fun writeTimestamp_attestations ::
  "ByteBuffer \<Rightarrow> int \<Rightarrow> int \<Rightarrow> Attestation list \<Rightarrow> ByteBuffer \<times> int" where
  "writeTimestamp_attestations buf totalBranches branchIdx [] = (buf, branchIdx)"
| "writeTimestamp_attestations buf totalBranches branchIdx (att # atts) =
    (let buf1 = (if branchIdx < totalBranches - 1 then push buf TAG_FORK else buf);
         buf2 = writeAttestation buf1 att
     in writeTimestamp_attestations buf2 totalBranches (branchIdx + 1) atts)"

fun writeTimestamp :: "ByteBuffer \<Rightarrow> Timestamp \<Rightarrow> ByteBuffer"
  and writeTimestamp_ops ::
    "ByteBuffer \<Rightarrow> int \<Rightarrow> int \<Rightarrow> (Operation \<times> Timestamp) list \<Rightarrow> ByteBuffer"
where
  "writeTimestamp buf (Timestamp atts tsOps) =
    (let totalBranches = int (length atts) + int (length tsOps);
         (buf1, branchIdx) = writeTimestamp_attestations buf totalBranches 0 atts
     in writeTimestamp_ops buf1 totalBranches branchIdx tsOps)"
| "writeTimestamp_ops buf totalBranches branchIdx [] = buf"
| "writeTimestamp_ops buf totalBranches branchIdx ((op, child) # rest) =
    (let buf1 = (if branchIdx < totalBranches - 1 then push buf TAG_FORK else buf);
         buf2 = writeOperation buf1 op;
         buf3 = writeTimestamp buf2 child
     in writeTimestamp_ops buf3 totalBranches (branchIdx + 1) rest)"

definition writeOts :: "OtsFile \<Rightarrow> bytes" where
  "writeOts ots =
    (let buf1 = extend [] HEADER_MAGIC;
         buf2 = writeVaruint buf1 1;
         buf3 = push buf2 (HASH_OP_TO_TAG (hashOp ots));
         buf4 = extend buf3 (fileDigest ots)
     in writeTimestamp buf4 (timestamp ots))"

section \<open>Hex strings (src/core/hex.ts)\<close>

definition HEX_CHARS :: string where
  "HEX_CHARS = ''0123456789abcdef''"

fun bytesToHex :: "bytes \<Rightarrow> string" where
  "bytesToHex [] = []"
| "bytesToHex (b # bs) =
    (HEX_CHARS ! unat (drop_bit 4 b)) # (HEX_CHARS ! unat (b AND 0x0f)) # bytesToHex bs"

text \<open>
  \<open>parseInt(ch, 16)\<close> on one character: the digit, or \<open>NaN\<close> (here \<open>None\<close>).
\<close>

definition parseIntHex :: "char \<Rightarrow> nat option" where
  "parseIntHex ch =
    (let n = (of_char ch :: nat) in
     if 48 \<le> n \<and> n \<le> 57 then Some (n - 48)
     else if 97 \<le> n \<and> n \<le> 102 then Some (n - 87)
     else if 65 \<le> n \<and> n \<le> 70 then Some (n - 55)
     else None)"

fun hexToBytes_loop :: "string \<Rightarrow> nat \<Rightarrow> error + bytes" where
  "hexToBytes_loop (h # l # rest) i =
    (case (parseIntHex h, parseIntHex l) of
       (Some hi, Some lo) \<Rightarrow>
         (case hexToBytes_loop rest (i + 2) of
            Inl e \<Rightarrow> Inl e
          | Inr bs \<Rightarrow> Inr (of_nat (hi * 16 + lo) # bs))
     | _ \<Rightarrow> Inl (InvalidHexCharacter i))"
| "hexToBytes_loop rest i = Inr []"

definition hexToBytes :: "string \<Rightarrow> error + bytes" where
  "hexToBytes hex =
    (if length hex mod 2 \<noteq> 0 then Inl OddLengthHexString
     else hexToBytes_loop hex 0)"

section \<open>The operation engine (src/core/operations.ts)\<close>

text \<open>
  \<open>new Uint8Array(n)\<close> is \<open>n\<close> zero bytes and \<open>out.set(src, offset)\<close> overwrites
  \<open>out\<close> from \<open>offset\<close> on, raising \<open>RangeError\<close> when \<open>src\<close> does not fit. The
  hash functions come from the record \<open>Crypto\<close>.
\<close>


definition newUint8Array :: "nat \<Rightarrow> bytes" where
  "newUint8Array n = replicate n 0"

definition u8set :: "bytes \<Rightarrow> bytes \<Rightarrow> nat \<Rightarrow> error + bytes" where
  "u8set out src offset =
    (if offset + length src > length out then Inl RangeError
     else Inr (take offset out @ src @ drop (offset + length src) out))"

fun applyOperation :: "Crypto \<Rightarrow> Operation \<Rightarrow> bytes \<Rightarrow> error + bytes" where
  "applyOperation cr (Append d) msg =
    (let out = newUint8Array (length msg + length d) in
     case u8set out msg 0 of
       Inl e \<Rightarrow> Inl e
     | Inr out1 \<Rightarrow> u8set out1 d (length msg))"
| "applyOperation cr (Prepend d) msg =
    (let out = newUint8Array (length d + length msg) in
     case u8set out d 0 of
       Inl e \<Rightarrow> Inl e
     | Inr out1 \<Rightarrow> u8set out1 msg (length d))"
| "applyOperation cr Sha256 msg = Inr (sha256 cr msg)"
| "applyOperation cr Sha1 msg = Inr (sha1 cr msg)"
| "applyOperation cr Ripemd160 msg = Inr (ripemd160 cr msg)"
| "applyOperation cr Keccak256 msg = Inl Keccak256NotSupported"
| "applyOperation cr Reverse msg = (let out = msg in Inr (rev out))"
| "applyOperation cr Hexlify msg = Inr (textEncode (bytesToHex msg))"

fun hashContents :: "Crypto \<Rightarrow> bytes \<Rightarrow> HashOp \<Rightarrow> error + bytes" where
  "hashContents cr data HashSha256 = Inr (sha256 cr data)"
| "hashContents cr data HashSha1 = Inr (sha1 cr data)"
| "hashContents cr data HashRipemd160 = Inr (ripemd160 cr data)"
| "hashContents cr data HashKeccak256 = Inl Keccak256NotSupported"

section \<open>Verification (src/core/verify.ts)\<close>

text \<open>
  The block lookup \<open>getBlockInfo\<close> (bitcoin.ts, network) is a collaborator: a function
  from the height to the block or to the exception it raises.
\<close>



definition merkleRootToLeBytes :: "string \<Rightarrow> error + bytes" where
  "merkleRootToLeBytes hexBe =
    (case hexToBytes hexBe of
       Inl e \<Rightarrow> Inl e
     | Inr bs \<Rightarrow> Inr (rev bs))"

definition verifyBitcoin :: "(nat \<Rightarrow> error + BlockInfo) \<Rightarrow> nat \<Rightarrow> bytes \<Rightarrow> VerifyResult" where
  "verifyBitcoin getBlockInfo height msg =
    (case getBlockInfo height of
       Inl e \<Rightarrow> ErrorResult (CouldNotFetchBitcoinBlock height e)
     | Inr blockInfo \<Rightarrow>
         (case merkleRootToLeBytes (merkleRoot blockInfo) of
            Inl e \<Rightarrow> ErrorResult (CouldNotFetchBitcoinBlock height e)
          | Inr expectedLe \<Rightarrow>
              if constantTimeEqual msg expectedLe
              then Verified height (blockHash blockInfo) (blockTimestamp blockInfo)
              else Failed height expectedLe msg))"

fun checkAttestation :: "(nat \<Rightarrow> error + BlockInfo) \<Rightarrow> Attestation \<Rightarrow> bytes \<Rightarrow> VerifyResult" where
  "checkAttestation getBlockInfo (Bitcoin h) msg = verifyBitcoin getBlockInfo h msg"
| "checkAttestation getBlockInfo (Pending uri) msg = PendingResult uri"
| "checkAttestation getBlockInfo (Litecoin h) msg = Skipped (LitecoinNotVerified h)"
| "checkAttestation getBlockInfo (Ethereum h) msg = Skipped (EthereumNotVerified h)"
| "checkAttestation getBlockInfo (Unknown tag payload) msg =
    Skipped (UnknownAttestationType (bytesToHex tag))"

text \<open>
  \<open>walkTimestamp\<close>: the first loop pushes one result per attestation; the second
  follows the operation branches, and its \<open>try\<close> turns a failed operation into one
  \<open>Error\<close> result. Nothing else in the loop body can throw, so the function returns a
  list.
\<close>

fun walkTimestamp_attestations ::
  "(nat \<Rightarrow> error + BlockInfo) \<Rightarrow> Attestation list \<Rightarrow> bytes \<Rightarrow> VerifyResult list \<Rightarrow> VerifyResult list"
where
  "walkTimestamp_attestations getBlockInfo [] msg results = results"
| "walkTimestamp_attestations getBlockInfo (att # atts) msg results =
    walkTimestamp_attestations getBlockInfo atts msg
      (results @ [checkAttestation getBlockInfo att msg])"

fun walkTimestamp ::
    "Crypto \<Rightarrow> (nat \<Rightarrow> error + BlockInfo) \<Rightarrow> Timestamp \<Rightarrow> bytes \<Rightarrow> nat \<Rightarrow> VerifyResult list"
  and walkTimestamp_ops ::
    "Crypto \<Rightarrow> (nat \<Rightarrow> error + BlockInfo) \<Rightarrow> (Operation \<times> Timestamp) list \<Rightarrow> bytes \<Rightarrow> nat
      \<Rightarrow> VerifyResult list \<Rightarrow> VerifyResult list"
where
  "walkTimestamp cr getBlockInfo (Timestamp atts tsOps) msg depth =
    (if depth > MAX_DEPTH then [ErrorResult ProofTreeExceedsMaximumDepth]
     else
       (let results = walkTimestamp_attestations getBlockInfo atts msg []
        in walkTimestamp_ops cr getBlockInfo tsOps msg depth results))"
| "walkTimestamp_ops cr getBlockInfo [] msg depth results = results"
| "walkTimestamp_ops cr getBlockInfo ((op, child) # rest) msg depth results =
    (case applyOperation cr op msg of
       Inl e \<Rightarrow>
         walkTimestamp_ops cr getBlockInfo rest msg depth
           (results @ [ErrorResult (OperationFailed e)])
     | Inr newMsg \<Rightarrow>
         (let childResults = walkTimestamp cr getBlockInfo child newMsg (depth + 1)
          in walkTimestamp_ops cr getBlockInfo rest msg depth (results @ childResults)))"

definition verifyFile ::
  "Crypto \<Rightarrow> (nat \<Rightarrow> error + BlockInfo) \<Rightarrow> (bytes \<Rightarrow> string) \<Rightarrow> bytes \<Rightarrow> bytes
    \<Rightarrow> error + VerifyResult list" where
  "verifyFile cr getBlockInfo decode fileData otsData =
    (case parseOts decode otsData of
       Inl e \<Rightarrow> Inl e
     | Inr ots \<Rightarrow>
         (case hashContents cr fileData (hashOp ots) of
            Inl e \<Rightarrow> Inl e
          | Inr computedDigest \<Rightarrow>
              if \<not> constantTimeEqual computedDigest (fileDigest ots)
              then Inl (FileDigestMismatch (fileDigest ots) computedDigest)
              else Inr (walkTimestamp cr getBlockInfo (timestamp ots) (fileDigest ots) 0)))"

section \<open>Upgrade (src/core/upgrade.ts)\<close>

text \<open>
  \<open>fetch\<close> is a collaborator: a function from the URL to the response, or to the
  exception of a rejected request. \<open>response.ok\<close> is a status from 200 to 299.
\<close>


definition ok :: "HttpResponse \<Rightarrow> bool" where
  "ok response = (200 \<le> status response \<and> status response \<le> 299)"


text \<open>\<open>uri.replace(/\/+$/, '')\<close> drops the slashes at the end of the URI.\<close>

definition stripTrailingSlashes :: "string \<Rightarrow> string" where
  "stripTrailingSlashes uri = rev (dropWhile (\<lambda>ch. ch = CHR ''/'') (rev uri))"

definition fetchUpgrade ::
  "(string \<Rightarrow> error + HttpResponse) \<Rightarrow> (bytes \<Rightarrow> string) \<Rightarrow> string \<Rightarrow> bytes
    \<Rightarrow> error + Timestamp option" where
  "fetchUpgrade fetch decode uri msg =
    (let url = stripTrailingSlashes uri @ ''/timestamp/'' @ bytesToHex msg in
     case fetch url of
       Inl e \<Rightarrow> Inl e
     | Inr response \<Rightarrow>
         if status response = 404 then Inr None
         else if \<not> ok response then Inl (HttpStatus (status response) url)
         else if length (body response) = 0 then Inr None
         else
           (case parseTimestampFromBytes decode (body response) of
              Inl e \<Rightarrow> Inl e
            | Inr subTree \<Rightarrow> Inr (Some subTree)))"

fun hasPendingAttestation_attestations :: "Attestation list \<Rightarrow> bool" where
  "hasPendingAttestation_attestations [] = False"
| "hasPendingAttestation_attestations (Pending uri # atts) = True"
| "hasPendingAttestation_attestations (att # atts) = hasPendingAttestation_attestations atts"

fun hasPendingAttestation :: "Timestamp \<Rightarrow> bool"
  and hasPendingAttestation_ops :: "(Operation \<times> Timestamp) list \<Rightarrow> bool"
where
  "hasPendingAttestation (Timestamp atts tsOps) =
    (if hasPendingAttestation_attestations atts then True
     else hasPendingAttestation_ops tsOps)"
| "hasPendingAttestation_ops [] = False"
| "hasPendingAttestation_ops ((op, child) # rest) =
    (if hasPendingAttestation child then True else hasPendingAttestation_ops rest)"

text \<open>
  \<open>upgradeTimestamp\<close> mutates the node it is given. The model returns the node as it is
  after the call, with the result record. The first loop fills \<open>newAttestations\<close> and
  \<open>newOps\<close>; \<open>originalOps\<close> is the list of continuations before \<open>ts.ops.push\<close>;
  the second loop walks \<open>originalOps\<close>, whose children are the objects that \<open>ts.ops\<close>
  holds at the same positions, so the node ends with the walked children followed by
  \<open>newOps\<close>.
\<close>

fun upgradeTimestamp_attestations ::
  "(string \<Rightarrow> error + HttpResponse) \<Rightarrow> (bytes \<Rightarrow> string) \<Rightarrow> bytes \<Rightarrow> Attestation list
    \<Rightarrow> Attestation list \<times> (Operation \<times> Timestamp) list \<times> UpgradeResult
    \<Rightarrow> Attestation list \<times> (Operation \<times> Timestamp) list \<times> UpgradeResult"
where
  "upgradeTimestamp_attestations fetch decode msg [] acc = acc"
| "upgradeTimestamp_attestations fetch decode msg (Pending uri # atts) (newAttestations, newOps, result) =
    (case fetchUpgrade fetch decode uri msg of
       Inr (Some subTree) \<Rightarrow>
         upgradeTimestamp_attestations fetch decode msg atts
           (newAttestations @ attestations subTree, newOps @ ops subTree,
            result\<lparr>upgraded := upgraded result + 1\<rparr>)
     | Inr None \<Rightarrow>
         upgradeTimestamp_attestations fetch decode msg atts
           (newAttestations @ [Pending uri], newOps,
            result\<lparr>stillPending := stillPending result + 1\<rparr>)
     | Inl e \<Rightarrow>
         upgradeTimestamp_attestations fetch decode msg atts
           (newAttestations @ [Pending uri], newOps,
            result\<lparr>errors := errors result @ [ErrorMessage e]\<rparr>))"
| "upgradeTimestamp_attestations fetch decode msg (att # atts) (newAttestations, newOps, result) =
    upgradeTimestamp_attestations fetch decode msg atts (newAttestations @ [att], newOps, result)"

fun upgradeTimestamp ::
    "Crypto \<Rightarrow> (string \<Rightarrow> error + HttpResponse) \<Rightarrow> (bytes \<Rightarrow> string) \<Rightarrow> Timestamp \<Rightarrow> bytes
      \<Rightarrow> UpgradeResult \<Rightarrow> nat \<Rightarrow> Timestamp \<times> UpgradeResult"
  and upgradeTimestamp_ops ::
    "Crypto \<Rightarrow> (string \<Rightarrow> error + HttpResponse) \<Rightarrow> (bytes \<Rightarrow> string)
      \<Rightarrow> (Operation \<times> Timestamp) list \<Rightarrow> bytes \<Rightarrow> UpgradeResult \<Rightarrow> nat
      \<Rightarrow> (Operation \<times> Timestamp) list \<times> UpgradeResult"
where
  "upgradeTimestamp cr fetch decode (Timestamp atts tsOps) msg result depth =
    (if depth > MAX_DEPTH
     then (Timestamp atts tsOps,
           result\<lparr>errors := errors result @ [ProofTreeExceedsMaximumDepth]\<rparr>)
     else
       (let (newAttestations, newOps, result1) =
              upgradeTimestamp_attestations fetch decode msg atts ([], [], result);
            originalOps = tsOps;
            (walked, result2) =
              upgradeTimestamp_ops cr fetch decode originalOps msg result1 depth
        in (Timestamp newAttestations (walked @ newOps), result2)))"
| "upgradeTimestamp_ops cr fetch decode [] msg result depth = ([], result)"
| "upgradeTimestamp_ops cr fetch decode ((op, child) # rest) msg result depth =
    (case applyOperation cr op msg of
       Inl e \<Rightarrow>
         (let (rest', result') =
                upgradeTimestamp_ops cr fetch decode rest msg
                  (result\<lparr>errors := errors result @ [OperationFailed e]\<rparr>) depth
          in ((op, child) # rest', result'))
     | Inr newMsg \<Rightarrow>
         (let (child', result1) = upgradeTimestamp cr fetch decode child newMsg result (depth + 1);
              (rest', result2) = upgradeTimestamp_ops cr fetch decode rest msg result1 depth
          in ((op, child') # rest', result2)))"

definition upgradeProof ::
  "Crypto \<Rightarrow> (string \<Rightarrow> error + HttpResponse) \<Rightarrow> (bytes \<Rightarrow> string) \<Rightarrow> OtsFile
    \<Rightarrow> OtsFile \<times> UpgradeResult" where
  "upgradeProof cr fetch decode ots =
    (let result = \<lparr>upgraded = 0, stillPending = 0, errors = [], alreadyComplete = False\<rparr> in
     if \<not> hasPendingAttestation (timestamp ots)
     then (ots, result\<lparr>alreadyComplete := True\<rparr>)
     else
       (let (ts', result') =
              upgradeTimestamp cr fetch decode (timestamp ots) (fileDigest ots) result 0
        in (ots\<lparr>timestamp := ts'\<rparr>, result')))"

section \<open>Stamping (src/core/stamp.ts)\<close>

text \<open>
  The POST to a calendar is a collaborator \<open>post\<close> (URL and body to response or
  exception), and \<open>nonce\<close> is what \<open>crypto.getRandomValues\<close> puts into the 16-byte
  array.
\<close>

definition CALENDAR_SERVERS :: "string list" where
  "CALENDAR_SERVERS =
    [''https://alice.btc.calendar.opentimestamps.org'',
     ''https://bob.btc.calendar.opentimestamps.org'']"

datatype stampError =
    StampError error
  | NoCalendarServerResponded "(string \<times> error) list"

definition submitToCalendar ::
  "(string \<Rightarrow> bytes \<Rightarrow> error + HttpResponse) \<Rightarrow> string \<Rightarrow> bytes \<Rightarrow> error + bytes" where
  "submitToCalendar post server digest =
    (let url = server @ ''/digest'' in
     case post url digest of
       Inl e \<Rightarrow> Inl e
     | Inr response \<Rightarrow>
         if \<not> ok response then Inl (HttpStatus (status response) url)
         else if length (body response) = 0 then Inl (EmptyResponse url)
         else if length (body response) > 65536 then Inl (ResponseTooLarge url)
         else Inr (body response))"

fun stampHash_submit ::
  "(string \<Rightarrow> bytes \<Rightarrow> error + HttpResponse) \<Rightarrow> bytes \<Rightarrow> string list
    \<Rightarrow> (string \<times> bytes) list \<times> (string \<times> error) list
    \<Rightarrow> (string \<times> bytes) list \<times> (string \<times> error) list" where
  "stampHash_submit post calendarDigest [] acc = acc"
| "stampHash_submit post calendarDigest (server # servers) (responses, errs) =
    (case submitToCalendar post server calendarDigest of
       Inr data \<Rightarrow>
         stampHash_submit post calendarDigest servers (responses @ [(server, data)], errs)
     | Inl e \<Rightarrow>
         stampHash_submit post calendarDigest servers (responses, errs @ [(server, e)]))"

fun stampHash_forks :: "ByteBuffer \<Rightarrow> (string \<times> bytes) list \<Rightarrow> ByteBuffer" where
  "stampHash_forks buf [] = buf"
| "stampHash_forks buf ((server, data) # rest) =
    stampHash_forks (extend (push buf TAG_FORK) data) rest"

definition stampHash ::
  "Crypto \<Rightarrow> (string \<Rightarrow> bytes \<Rightarrow> error + HttpResponse) \<Rightarrow> bytes \<Rightarrow> string
    \<Rightarrow> stampError + bytes" where
  "stampHash cr post nonce sha256Hex =
    (case hexToBytes sha256Hex of
       Inl e \<Rightarrow> Inl (StampError e)
     | Inr digest32 \<Rightarrow>
         if length digest32 \<noteq> 32
         then Inl (StampError (ExpectedDigestOf32Bytes (length digest32)))
         else
           (let combined = nonce @ digest32;
                calendarDigest = sha256 cr combined;
                (responses, errs) =
                  stampHash_submit post calendarDigest CALENDAR_SERVERS ([], [])
            in if length responses = 0 then Inl (NoCalendarServerResponded errs)
               else
                 (let buf1 = extend [] HEADER_MAGIC;
                      buf2 = writeVaruint buf1 1;
                      buf3 = push buf2 (HASH_OP_TO_TAG HashSha256);
                      buf4 = extend buf3 digest32;
                      buf5 = push buf4 TAG_PREPEND;
                      buf6 = writeVarbytes buf5 nonce;
                      buf7 = push buf6 TAG_SHA256;
                      buf8 = (if length responses > 1
                              then stampHash_forks buf7 (butlast responses)
                              else buf7)
                  in Inr (extend buf8 (snd (last responses))))))"

section \<open>Auxiliary notions for the statements\<close>

text \<open>
  The number a sequence of LEB128 bytes stands for: 7 payload bits per byte, least
  significant group first. The continuation bits are ignored.
\<close>

fun varuintValue :: "bytes \<Rightarrow> nat" where
  "varuintValue [] = 0"
| "varuintValue (b # bs) = unat (b AND 0x7f) + 128 * varuintValue bs"

text \<open>
  The attestations of a tree in depth-first order, those of a node before those of its
  continuations, and the continuations in the order stored.
\<close>

fun allAttestations :: "Timestamp \<Rightarrow> Attestation list"
  and allAttestations_ops :: "(Operation \<times> Timestamp) list \<Rightarrow> Attestation list"
where
  "allAttestations (Timestamp atts tsOps) = atts @ allAttestations_ops tsOps"
| "allAttestations_ops [] = []"
| "allAttestations_ops ((op, child) # rest) = allAttestations child @ allAttestations_ops rest"

text \<open>
  The operation engine in the words of the specification (4.2): \<open>None\<close> stands for the
  failure \<open>UnsupportedOperation\<close>. \<open>asciiLowercaseHex\<close> writes each byte as two
  lowercase hexadecimal digits, in ASCII.
\<close>

definition hexDigit :: "nat \<Rightarrow> byte" where
  "hexDigit d = (if d < 10 then of_nat (48 + d) else of_nat (87 + d))"

definition asciiLowercaseHex :: "bytes \<Rightarrow> bytes" where
  "asciiLowercaseHex msg =
    concat (map (\<lambda>b. [hexDigit (unat b div 16), hexDigit (unat b mod 16)]) msg)"

fun applySpec :: "Crypto \<Rightarrow> Operation \<Rightarrow> bytes \<Rightarrow> bytes option" where
  "applySpec cr (Append d) msg = Some (msg @ d)"
| "applySpec cr (Prepend d) msg = Some (d @ msg)"
| "applySpec cr Reverse msg = Some (rev msg)"
| "applySpec cr Hexlify msg = Some (asciiLowercaseHex msg)"
| "applySpec cr Sha256 msg = Some (sha256 cr msg)"
| "applySpec cr Sha1 msg = Some (sha1 cr msg)"
| "applySpec cr Ripemd160 msg = Some (ripemd160 cr msg)"
| "applySpec cr Keccak256 msg = None"

text \<open>The errors that parser.ts raises (with the marker of the varuint model).\<close>

definition isParseError :: "error \<Rightarrow> bool" where
  "isParseError e =
    (case e of
       UnexpectedEndOfFile \<Rightarrow> True
     | VaruintOverflow \<Rightarrow> True
     | VarbytesTooLarge \<Rightarrow> True
     | BadMagicHeader \<Rightarrow> True
     | UnsupportedVersion v \<Rightarrow> True
     | UnknownHashOpTag t \<Rightarrow> True
     | UnknownOperationTag t \<Rightarrow> True
     | MaximumDepthExceeded \<Rightarrow> True
     | ValueIsNaN \<Rightarrow> True
     | _ \<Rightarrow> False)"

text \<open>Concrete collaborators and inputs, for the instances below.\<close>

definition idCrypto :: Crypto where
  "idCrypto = \<lparr>sha256 = id, sha1 = id, ripemd160 = id\<rparr>"

definition noBlocks :: "nat \<Rightarrow> error + BlockInfo" where
  "noBlocks h = Inl (Rejected ''Network error'')"

definition zeros32 :: bytes where "zeros32 = replicate 32 0"

definition bitcoinOts :: OtsFile where
  "bitcoinOts = \<lparr>hashOp = HashSha256, fileDigest = zeros32,
     timestamp = Timestamp [] [(Append [0x01], Timestamp [] [(Sha256, Timestamp [Bitcoin 100000] [])])]\<rparr>"

definition noFetch :: "string \<Rightarrow> error + HttpResponse" where
  "noFetch url = Inl (Rejected ''DNS resolution failed'')"

text \<open>
  For the walkers: the number of continuation steps below a node; that every operation
  on every path from a node applies without an exception; and the attestations of a tree
  in depth-first order, each with the message that the operations on its path produce.
\<close>

fun treeDepth :: "Timestamp \<Rightarrow> nat"
  and treeDepth_ops :: "(Operation \<times> Timestamp) list \<Rightarrow> nat"
where
  "treeDepth (Timestamp atts tsOps) = treeDepth_ops tsOps"
| "treeDepth_ops [] = 0"
| "treeDepth_ops ((op, child) # rest) = max (Suc (treeDepth child)) (treeDepth_ops rest)"

fun opsSucceed :: "Crypto \<Rightarrow> Timestamp \<Rightarrow> bytes \<Rightarrow> bool"
  and opsSucceed_ops :: "Crypto \<Rightarrow> (Operation \<times> Timestamp) list \<Rightarrow> bytes \<Rightarrow> bool"
where
  "opsSucceed cr (Timestamp atts tsOps) msg = opsSucceed_ops cr tsOps msg"
| "opsSucceed_ops cr [] msg = True"
| "opsSucceed_ops cr ((op, child) # rest) msg =
    ((case applyOperation cr op msg of Inl e \<Rightarrow> False | Inr m \<Rightarrow> opsSucceed cr child m)
     \<and> opsSucceed_ops cr rest msg)"

fun attestationPaths :: "Crypto \<Rightarrow> Timestamp \<Rightarrow> bytes \<Rightarrow> (Attestation \<times> bytes) list"
  and attestationPaths_ops ::
    "Crypto \<Rightarrow> (Operation \<times> Timestamp) list \<Rightarrow> bytes \<Rightarrow> (Attestation \<times> bytes) list"
where
  "attestationPaths cr (Timestamp atts tsOps) msg =
    map (\<lambda>a. (a, msg)) atts @ attestationPaths_ops cr tsOps msg"
| "attestationPaths_ops cr [] msg = []"
| "attestationPaths_ops cr ((op, child) # rest) msg =
    (case applyOperation cr op msg of Inl e \<Rightarrow> [] | Inr m \<Rightarrow> attestationPaths cr child m)
    @ attestationPaths_ops cr rest msg"

text \<open>
  The kinds of result that C4 names for each kind of attestation
  (\<open>claimedResultFor\<close>), and the kinds that \<open>checkAttestation\<close> has
  (\<open>resultFor\<close>): for Bitcoin also the \<open>Error\<close> of a failed block lookup.
\<close>

fun claimedResultFor :: "Attestation \<Rightarrow> VerifyResult \<Rightarrow> bool" where
  "claimedResultFor (Bitcoin h) (Verified h' bh bt) = (h' = h)"
| "claimedResultFor (Bitcoin h) (Failed h' expected got) = (h' = h)"
| "claimedResultFor (Pending uri) (PendingResult uri') = (uri' = uri)"
| "claimedResultFor (Litecoin h) (Skipped r) = (r = LitecoinNotVerified h)"
| "claimedResultFor (Ethereum h) (Skipped r) = (r = EthereumNotVerified h)"
| "claimedResultFor (Unknown tag payload) (Skipped r) = (r = UnknownAttestationType (bytesToHex tag))"
| "claimedResultFor a r = False"

fun resultFor :: "Attestation \<Rightarrow> VerifyResult \<Rightarrow> bool" where
  "resultFor (Bitcoin h) (ErrorResult (CouldNotFetchBitcoinBlock h' e)) = (h' = h)"
| "resultFor a r = claimedResultFor a r"

definition bitcoinFile :: bytes where
  "bitcoinFile = HEADER_MAGIC @ [0x01, 0x08] @ zeros32 @
     [0xff, 0x00] @ ATT_TAG_BITCOIN @ [0x01, 0x05] @
     [0xf0, 0x01, 0x07, 0x00] @ ATT_TAG_LITECOIN @ [0x01, 0x09]"

definition oneBlock :: "nat \<Rightarrow> error + BlockInfo" where
  "oneBlock h =
    Inr \<lparr>blockHeight = h, blockHash = ''00'', merkleRoot = replicate 64 (CHR ''0''),
         blockTimestamp = 1433919547\<rparr>"

definition aliceUri :: string where
  "aliceUri = ''https://alice.btc.calendar.opentimestamps.org''"

definition pendingOts :: OtsFile where
  "pendingOts = \<lparr>hashOp = HashSha256, fileDigest = zeros32,
     timestamp = Timestamp [Pending aliceUri] []\<rparr>"





text \<open>
  A Pending attestation as the parser reads it: the outer varbytes holds the inner
  varbytes of the URI.
\<close>

definition pendingResponse :: "string \<Rightarrow> bytes" where
  "pendingResponse uri =
    [0x00] @ ATT_TAG_PENDING @ writeVarbytes [] (writeVarbytes [] (textEncode uri))"



text \<open>
  A byte string \<open>r\<close> is one self-delimiting branch at a depth when the parser, meeting
  \<open>r\<close> followed by anything, reads exactly \<open>r\<close> as one branch: it adds the
  attestations \<open>as\<close> and the continuations \<open>os\<close> (one of the two is a single element)
  and stops at what follows.
\<close>

definition isBranch ::
  "(bytes \<Rightarrow> string) \<Rightarrow> nat \<Rightarrow> bytes \<Rightarrow> Attestation list \<Rightarrow> (Operation \<times> Timestamp) list \<Rightarrow> bool"
where
  "isBranch decode depth r as os =
    (\<forall>rest atts0 ops0.
       parseTimestampBranch decode (r @ rest) atts0 ops0 depth =
         Inr (rest, atts0 @ as, ops0 @ os))"

text \<open>Calendars, a nonce and a digest for the instances of stamping.\<close>

definition pendingPost :: "string \<Rightarrow> bytes \<Rightarrow> error + HttpResponse" where
  "pendingPost url digest = Inr \<lparr>status = 200, body = pendingResponse aliceUri\<rparr>"

definition twoBitcoin :: bytes where
  "twoBitcoin =
    [0xff, 0x00] @ ATT_TAG_BITCOIN @ [0x01, 0x05] @ [0x00] @ ATT_TAG_BITCOIN @ [0x01, 0x06]"

definition forkPost :: "string \<Rightarrow> bytes \<Rightarrow> error + HttpResponse" where
  "forkPost url digest = Inr \<lparr>status = 200, body = twoBitcoin\<rparr>"

definition nonce16 :: bytes where
  "nonce16 = replicate 16 0x11"

definition digestHex :: string where
  "digestHex = replicate 64 (CHR ''a'')"

definition digestAA :: bytes where
  "digestAA = replicate 32 0xaa"

definition stampPrefix :: bytes where
  "stampPrefix = HEADER_MAGIC @ [0x01, 0x08] @ digestAA @ [0xf1, 0x10] @ nonce16 @ [0x08]"

section \<open>Facts about the cursor\<close>

lemma readVaruint_loop_continue:
  assumes "\<forall>b \<in> set pre. b AND 0x80 \<noteq> 0"
    and "s + 7 * length pre \<le> 49"
  shows "readVaruint_loop v s (pre @ rest) =
         readVaruint_loop (v + 2 ^ s * varuintValue pre) (s + 7 * length pre) rest"
  using assms
proof (induction pre arbitrary: v s)
  case Nil
  then show ?case by simp
next
  case (Cons b pre)
  have s42: "s \<le> 42" using Cons.prems(2) by simp
  have step: "readVaruint_loop v s ((b # pre) @ rest) =
      readVaruint_loop (v + unat (b AND 0x7f) * 2 ^ s) (s + 7) (pre @ rest)"
    using s42 Cons.prems(1) by (simp add: readVaruint_loop_Cons)
  have "readVaruint_loop (v + unat (b AND 0x7f) * 2 ^ s) (s + 7) (pre @ rest) =
      readVaruint_loop (v + unat (b AND 0x7f) * 2 ^ s + 2 ^ (s + 7) * varuintValue pre)
        (s + 7 + 7 * length pre) rest"
  proof (rule Cons.IH)
    show "\<forall>b\<in>set pre. b AND 0x80 \<noteq> 0" using Cons.prems(1) by simp
    show "s + 7 + 7 * length pre \<le> 49" using Cons.prems(2) by simp
  qed
  then show ?case using step by (simp add: power_add algebra_simps)
qed

lemma varuintValue_snoc:
  "varuintValue (xs @ [b]) = varuintValue xs + unat (b AND 0x7f) * 128 ^ length xs"
  by (induction xs) (simp_all add: algebra_simps)

section \<open>Facts about bytes and hex strings\<close>


lemma word_xor_eq_0_iff: "((x::byte) XOR y = 0) = (x = y)"
proof
  assume "x XOR y = 0"
  moreover have "x = (x XOR y) XOR y" by (simp add: xor.assoc)
  ultimately show "x = y" by simp
next
  assume "x = y"
  then show "x XOR y = 0" by simp
qed

lemma constantTimeEqual_loop_zero:
  "length a = length b \<Longrightarrow>
   (constantTimeEqual_loop a b i r = 0) = (r = 0 \<and> drop i a = drop i b)"
proof (induction a b i r rule: constantTimeEqual_loop.induct)
  case (1 a b i result)
  show ?case
  proof (cases "i < length a")
    case True
    have d: "drop i a = a ! i # drop (Suc i) a" "drop i b = b ! i # drop (Suc i) b"
      using True "1.prems" by (simp_all add: Cons_nth_drop_Suc)
    have "(a ! i XOR b ! i = 0) = (a ! i = b ! i)"
      by (rule word_xor_eq_0_iff)
    then have "(result OR (a ! i XOR b ! i) = 0) = (result = 0 \<and> a ! i = b ! i)"
      by (simp add: or_eq_0_iff)
    with "1.IH" [OF True "1.prems"] True d show ?thesis
      by (subst constantTimeEqual_loop.simps) auto
  next
    case False
    with "1.prems" show ?thesis
      by (subst constantTimeEqual_loop.simps) simp
  qed
qed

lemma constantTimeEqual_iff: "constantTimeEqual a b = (a = b)"
  using constantTimeEqual_loop_zero [of a b 0 0]
  by (auto simp: constantTimeEqual_def)

lemma hexChars_nth: "n < 16 \<Longrightarrow> of_nat (of_char (HEX_CHARS ! n)) = hexDigit n"
proof -
  assume "n < 16"
  have "list_all (\<lambda>n. (of_nat (of_char (HEX_CHARS ! n)) :: byte) = hexDigit n) [0..<16]"
    by code_simp
  with \<open>n < 16\<close> show ?thesis
    by (simp add: list_all_iff)
qed

lemma nibbles:
  "unat (drop_bit 4 (b::byte)) = unat b div 16" "unat (b AND 0x0f) = unat b mod 16"
proof -
  show "unat (drop_bit 4 b) = unat b div 16"
    by (simp add: drop_bit_eq_div unat_div)
  have "b AND 0x0f = take_bit 4 b"
    by (simp add: take_bit_eq_mask mask_eq_exp_minus_1)
  then show "unat (b AND 0x0f) = unat b mod 16"
    by (simp add: take_bit_eq_mod unat_mod)
qed

lemma textEncode_bytesToHex: "textEncode (bytesToHex msg) = asciiLowercaseHex msg"
proof (induction msg)
  case Nil
  show ?case by (simp add: textEncode_def asciiLowercaseHex_def)
next
  case (Cons b msg)
  have "unat b div 16 < 16" using unsigned_less [of b, where 'a = nat] by simp
  moreover have "unat b mod 16 < 16" by simp
  ultimately show ?case
    using Cons by (simp add: textEncode_def asciiLowercaseHex_def nibbles hexChars_nth)
qed

lemma u8set_fill:
  "u8set (newUint8Array (length a + length b)) a 0 = Inr (a @ replicate (length b) 0)"
  "u8set (a @ replicate (length b) 0) b (length a) = Inr (a @ b)"
  by (simp_all add: u8set_def newUint8Array_def)

section \<open>Reading what the writer wrote: varuint and varbytes\<close>


lemma writeVaruint_step:
  "writeVaruint buf v =
    (if v div 128 \<noteq> 0 then writeVaruint (buf @ [of_nat (v mod 128) OR 0x80]) (v div 128)
     else buf @ [of_nat (v mod 128)])"
  by (subst writeVaruint.simps) (simp add: Let_def push_def)

lemma writeVaruint_append: "writeVaruint buf v = buf @ writeVaruint [] v"
proof (induction v arbitrary: buf rule: less_induct)
  case (less v)
  show ?case
  proof (cases "v div 128 \<noteq> 0")
    case True
    then have lt: "v div 128 < v" by (simp add: div_less_dividend)
    show ?thesis
      using True less.IH [OF lt, of "buf @ [of_nat (v mod 128) OR 0x80]"]
        less.IH [OF lt, of "[of_nat (v mod 128) OR 0x80]"]
      by (simp add: writeVaruint_step [of buf v] writeVaruint_step [of "[]" v])
  next
    case False
    then show ?thesis
      by (simp add: writeVaruint_step [of buf v] writeVaruint_step [of "[]" v])
  qed
qed

lemma payload_bits_all:
  "list_all (\<lambda>p. (of_nat p :: byte) AND 0x7f = of_nat p \<and> (of_nat p :: byte) AND 0x80 = 0 \<and>
      ((of_nat p :: byte) OR 0x80) AND 0x7f = of_nat p \<and>
      ((of_nat p :: byte) OR 0x80) AND 0x80 \<noteq> 0 \<and> unat (of_nat p :: byte) = p) [0..<128]"
  by code_simp

lemma payload_bits:
  assumes "p < 128"
  shows "(of_nat p :: byte) AND 0x7f = of_nat p" "(of_nat p :: byte) AND 0x80 = 0"
    "((of_nat p :: byte) OR 0x80) AND 0x7f = of_nat p"
    "((of_nat p :: byte) OR 0x80) AND 0x80 \<noteq> 0" "unat (of_nat p :: byte) = p"
  using payload_bits_all assms by (simp_all add: list_all_iff)

lemma varuint_split: "(p::nat) * k + q * (128 * k) = (p + q * 128) * k"
  by (simp add: algebra_simps)

lemma readVaruint_loop_writeVaruint:
  "n * 2 ^ s < 2 ^ 53 \<Longrightarrow> s < 1024 \<Longrightarrow>
   readVaruint_loop v s (writeVaruint [] n @ c) = Inr (v + n * 2 ^ s, c)"
proof (induction n arbitrary: v s rule: less_induct)
  case (less n)
  let ?p = "n mod 128"
  have p: "?p < 128" by simp
  have ple: "?p * 2 ^ s \<le> n * 2 ^ s" by (simp add: mod_less_eq_dividend)
  have g56: "\<not> (56 \<le> s \<and> 0 < (of_nat ?p :: byte))"
  proof
    assume a: "56 \<le> s \<and> 0 < (of_nat ?p :: byte)"
    then have "?p \<noteq> 0" by (auto simp: word_greater_zero_iff intro: ccontr)
    then have "(2::nat) ^ s \<le> ?p * 2 ^ s" by simp
    moreover have "(2::nat) ^ 53 \<le> 2 ^ s" using a by (intro power_increasing) simp_all
    ultimately show False using ple less.prems(1) by linarith
  qed
  have g49: "\<not> (49 \<le> s \<and> 15 < (of_nat ?p :: byte))"
  proof
    assume a: "49 \<le> s \<and> 15 < (of_nat ?p :: byte)"
    then have "unat (15 :: byte) < unat (of_nat ?p :: byte)" by (simp add: word_less_nat_alt)
    then have "16 \<le> ?p" using payload_bits(5) [OF p] by simp
    then have "16 * (2::nat) ^ s \<le> ?p * 2 ^ s" by simp
    moreover have "(2::nat) ^ 49 \<le> 2 ^ s" using a by (intro power_increasing) simp_all
    then have "16 * (2::nat) ^ 49 \<le> 16 * 2 ^ s" by simp
    moreover have "16 * (2::nat) ^ 49 = 2 ^ 53" by simp
    ultimately show False using ple less.prems(1) by linarith
  qed
  show ?case
  proof (cases "n div 128 \<noteq> 0")
    case False
    then have n: "n = ?p" by (metis div_mult_mod_eq mult_zero_left add_0)
    have "writeVaruint [] n = [of_nat ?p]" using False by (simp add: writeVaruint_step [of "[]" n])
    then show ?thesis
      using g56 g49 less.prems(2) payload_bits [OF p] n
      by (simp add: readVaruint_loop_Cons)
  next
    case True
    then have lt: "n div 128 < n" by (simp add: div_less_dividend)
    have w: "writeVaruint [] n = (of_nat ?p OR 0x80) # writeVaruint [] (n div 128)"
      using True writeVaruint_append [of "[of_nat ?p OR 0x80]" "n div 128"]
      by (simp add: writeVaruint_step [of "[]" n])
    have "n div 128 * 128 \<le> n" by simp
    then have "n div 128 * 2 ^ (s + 7) \<le> n * 2 ^ s"
      by (simp add: power_add) 
    then have b: "n div 128 * 2 ^ (s + 7) < 2 ^ 53" using less.prems(1) by simp
    have "(2::nat) ^ (s + 7) \<le> n div 128 * 2 ^ (s + 7)" using True by simp
    from this b have lt53: "(2::nat) ^ (s + 7) < 2 ^ 53" by (rule le_less_trans)
    have s7: "s + 7 < 1024"
    proof (rule ccontr)
      assume "\<not> s + 7 < 1024"
      then have "(2::nat) ^ 53 \<le> 2 ^ (s + 7)" by (intro power_increasing) simp_all
      with lt53 show False by linarith
    qed
    have eq: "v + ?p * 2 ^ s + n div 128 * 2 ^ (s + 7) = v + n * 2 ^ s"
    proof -
      have e1: "(2::nat) ^ (s + 7) = 128 * 2 ^ s" by (simp add: power_add)
      have e2: "?p + n div 128 * 128 = n" by simp
      have "?p * 2 ^ s + n div 128 * (128 * 2 ^ s) = (?p + n div 128 * 128) * 2 ^ s"
        by (rule varuint_split)
      then have "?p * 2 ^ s + n div 128 * 2 ^ (s + 7) = n * 2 ^ s"
        unfolding e1 e2 .
      then show ?thesis by linarith
    qed
    show ?thesis
      using g56 g49 less.prems(2) payload_bits [OF p] w eq
        less.IH [OF lt b s7, of "v + ?p * 2 ^ s" ]
      by (simp add: readVaruint_loop_Cons)
  qed
qed

lemma readVaruint_writeVaruint:
  "n < 2 ^ 53 \<Longrightarrow> readVaruint (writeVaruint [] n @ c) = Inr (n, c)"
  using readVaruint_loop_writeVaruint [of n 0 0 c] by (simp add: readVaruint_def)

lemma readBytes_append: "readBytes (a @ c) (length a) = Inr (a, c)"
  by (simp add: readBytes_def)

lemma readVarbytes_writeVarbytes:
  "length d \<le> 1048576 \<Longrightarrow> readVarbytes (writeVarbytes [] d @ c) = Inr (d, c)"
proof -
  assume a: "length d \<le> 1048576"
  then have "length d < 2 ^ 53" by simp
  then have "readVaruint (writeVaruint [] (length d) @ d @ c) = Inr (length d, d @ c)"
    by (rule readVaruint_writeVaruint)
  with a show ?thesis
    by (simp add: readVarbytes_def writeVarbytes_def extend_def readBytes_append)
qed

lemma readVaruint_loop_prefix:
  "readVaruint_loop v s bs = Inr (h, r) \<Longrightarrow> readVaruint_loop v s (bs @ x) = Inr (h, r @ x)"
proof (induction bs arbitrary: v s)
  case Nil
  then show ?case by (simp add: readVaruint_loop_Nil)
next
  case (Cons b bs)
  from Cons.prems show ?case
    by (auto simp: readVaruint_loop_Cons split: if_splits intro: Cons.IH)
qed

section \<open>The errors of the parser\<close>


lemma isParseError_simps [simp]:
  "isParseError UnexpectedEndOfFile" "isParseError VaruintOverflow"
  "isParseError VarbytesTooLarge" "isParseError BadMagicHeader"
  "isParseError (UnsupportedVersion v)" "isParseError (UnknownHashOpTag t)"
  "isParseError (UnknownOperationTag t)" "isParseError MaximumDepthExceeded"
  "isParseError ValueIsNaN" "\<not> isParseError (FileDigestMismatch x y)"
  "\<not> isParseError Keccak256NotSupported"
  by (simp_all add: isParseError_def)

lemma readByte_error: "readByte c = Inl e \<Longrightarrow> isParseError e"
  by (auto simp: readByte_def  split: list.splits)

lemma peek_error: "peek c = Inl e \<Longrightarrow> isParseError e"
  by (auto simp: peek_def  split: list.splits)

lemma readBytes_error: "readBytes c n = Inl e \<Longrightarrow> isParseError e"
  by (auto simp: readBytes_def  split: if_splits)

lemma readVaruint_loop_error: "readVaruint_loop v s c = Inl e \<Longrightarrow> isParseError e"
proof (induction c arbitrary: v s)
  case Nil
  then show ?case by (simp add: readVaruint_loop_Nil )
next
  case (Cons b c)
  from Cons.prems show ?case
    by (auto simp: readVaruint_loop_Cons  split: if_splits intro: Cons.IH)
qed

lemma readVarbytes_error: "readVarbytes c = Inl e \<Longrightarrow> isParseError e"
  by (auto simp: readVarbytes_def readVaruint_def 
           split: sum.splits if_splits intro: readVaruint_loop_error readBytes_error)

lemma parseOperation_error: "parseOperation c = Inl e \<Longrightarrow> isParseError e"
  by (auto simp: parseOperation_def  split: sum.splits if_splits
           intro: readByte_error readVarbytes_error)

lemma parseAttestation_error: "parseAttestation decode c = Inl e \<Longrightarrow> isParseError e"
  by (auto simp: parseAttestation_def varuintFromSlice_def readVaruint_def
           split: sum.splits if_splits)
     (erule readBytes_error readVarbytes_error readVaruint_loop_error)+

lemma parseTimestamp_error:
  "parseTimestamp decode c depth = Inl e \<Longrightarrow> isParseError e"
  "parseTimestamp_forks decode c atts0 ops0 depth = Inl e \<Longrightarrow> isParseError e"
  "parseTimestampBranch decode c atts0 ops0 depth = Inl e \<Longrightarrow> isParseError e"
proof (induction decode c depth and decode c atts0 ops0 depth and decode c atts0 ops0 depth
       rule: parseTimestamp_parseTimestamp_forks_parseTimestampBranch.induct)
  case (1 decode c depth)
  from "1.prems" show ?case
    apply (subst (asm) parseTimestamp.simps)
    apply (auto split: if_splits sum.splits prod.splits intro: "1.IH")
    done
next
  case (2 decode c atts0 ops0 depth)
  from "2.prems" show ?case
    apply (subst (asm) parseTimestamp_forks.simps)
    apply (auto split: if_splits sum.splits prod.splits intro: "2.IH" readByte_error)
    done
next
  case (3 decode c atts0 ops0 depth)
  from "3.prems" show ?case
    apply (subst (asm) parseTimestampBranch.simps)
    apply (auto split: if_splits sum.splits prod.splits
                intro: "3.IH" readByte_error peek_error parseOperation_error parseAttestation_error)
    done
qed

lemma parseOts_error: "parseOts decode data = Inl e \<Longrightarrow> isParseError e"
  by (auto simp: parseOts_def parseHashOp_def readVaruint_def
           split: sum.splits if_splits option.splits)
     (erule readBytes_error readByte_error readVaruint_loop_error parseTimestamp_error(1))+

section \<open>Parsing a file that stops after the digest\<close>

lemma readVaruint_one: "readVaruint (1 # c) = Inr (1, c)"
  by (simp add: readVaruint_def readVaruint_loop_Cons)

lemma parseTimestamp_empty: "parseTimestamp decode [] 0 = Inr (Timestamp [] [], [])"
  by (simp add: parseTimestamp.simps parseTimestamp_forks.simps remaining_def MAX_DEPTH_def)

lemma parseOts_header_only:
  "length d = 32 \<Longrightarrow> parseOts decode (HEADER_MAGIC @ [0x01, 0x08] @ d) =
    Inr \<lparr>hashOp = HashSha256, fileDigest = d, timestamp = Timestamp [] []\<rparr>"
  by (simp add: parseOts_def readBytes_def constantTimeEqual_iff readVaruint_one readByte_def
        parseHashOp_def TAG_TO_HASH_OP_def tag_defs parseTimestamp_empty HEADER_MAGIC_def)

section \<open>Parsing one branch, and a file after its digest\<close>

lemma parseOperation_tag:
  "parseOperation c = Inr (op, c1) \<Longrightarrow>
   \<exists>tag c0. c = tag # c0 \<and> tag \<noteq> TAG_ATTESTATION \<and> tag \<noteq> TAG_FORK"
  by (cases c) (auto simp: parseOperation_def readByte_def tag_defs split: if_splits sum.splits)

lemma parseTimestampBranch_attestation:
  "parseAttestation decode c1 = Inr (a, c2) \<Longrightarrow>
   parseTimestampBranch decode (TAG_ATTESTATION # c1) atts0 ops0 depth = Inr (c2, atts0 @ [a], ops0)"
  by (simp add: parseTimestampBranch.simps peek_def readByte_def)

lemma parseTimestampBranch_operation:
  assumes "parseOperation c = Inr (op, c1)"
    and "parseTimestamp decode c1 (depth + 1) = Inr (child, c2)"
  shows "parseTimestampBranch decode c atts0 ops0 depth = Inr (c2, atts0, ops0 @ [(op, child)])"
proof -
  from parseOperation_tag [OF assms(1)] obtain tag c0 where
    "c = tag # c0" "tag \<noteq> TAG_ATTESTATION" by blast
  with assms show ?thesis
    by (simp add: parseTimestampBranch.simps peek_def)
qed

lemma parseTimestamp_at_end:
  "depth \<le> MAX_DEPTH \<Longrightarrow> parseTimestamp decode [] depth = Inr (Timestamp [] [], [])"
  by (simp add: parseTimestamp.simps parseTimestamp_forks.simps remaining_def)

lemma parseTimestamp_single_branch:
  assumes "depth \<le> MAX_DEPTH" and "c \<noteq> []" and "hd c \<noteq> TAG_FORK"
    and "parseTimestampBranch decode c [] [] depth = Inr (c2, atts, tsOps)"
  shows "parseTimestamp decode c depth = Inr (Timestamp atts tsOps, c2)"
proof -
  from assms(2,3) have "parseTimestamp_forks decode c [] [] depth = Inr (c, [], [])"
    by (cases c) (simp_all add: parseTimestamp_forks.simps peek_def)
  with assms show ?thesis
    by (simp add: parseTimestamp.simps remaining_def)
qed

lemma parseOts_body:
  assumes "length d = HASH_OP_DIGEST_LEN hop"
  shows "parseOts decode (HEADER_MAGIC @ [0x01, HASH_OP_TO_TAG hop] @ d @ c) =
    (case parseTimestamp decode c 0 of
       Inl e \<Rightarrow> Inl e
     | Inr (ts, c') \<Rightarrow> Inr \<lparr>hashOp = hop, fileDigest = d, timestamp = ts\<rparr>)"
proof -
  have t: "TAG_TO_HASH_OP (HASH_OP_TO_TAG hop) = Some hop"
    by (cases hop) (simp_all add: TAG_TO_HASH_OP_def tag_defs)
  have r: "readBytes (d @ c) (HASH_OP_DIGEST_LEN hop) = Inr (d, c)"
    using readBytes_append [of d c] assms by simp
  have h: "readBytes (HEADER_MAGIC @ x) (length HEADER_MAGIC) = Inr (HEADER_MAGIC, x)" for x
    by (rule readBytes_append)
  show ?thesis
    by (simp add: parseOts_def h constantTimeEqual_iff readVaruint_one readByte_def
          parseHashOp_def t r)
qed

lemma readVarbytes_short:
  "n < 128 \<Longrightarrow> length d = n \<Longrightarrow> readVarbytes (of_nat n # d @ c) = Inr (d, c)"
  using payload_bits [of n]
  by (simp add: readVarbytes_def readVaruint_def readVaruint_loop_Cons readBytes_def)

lemma parseAttestation_height:
  assumes "readVarbytes c1 = Inr (payload, c2)" and "varuintFromSlice payload = Inr h"
  shows "parseAttestation decode (ATT_TAG_BITCOIN @ c1) = Inr (Bitcoin h, c2)"
    and "parseAttestation decode (ATT_TAG_LITECOIN @ c1) = Inr (Litecoin h, c2)"
    and "parseAttestation decode (ATT_TAG_ETHEREUM @ c1) = Inr (Ethereum h, c2)"
  using assms
  by (simp_all add: parseAttestation_def readBytes_def constantTimeEqual_iff att_tag_defs)

lemma parseAttestation_pending:
  assumes "readVarbytes c1 = Inr (payload, c2)" and "readVarbytes payload = Inr (uriBytes, r)"
  shows "parseAttestation decode (ATT_TAG_PENDING @ c1) = Inr (Pending (decode uriBytes), c2)"
  using assms
  by (simp add: parseAttestation_def readBytes_def constantTimeEqual_iff att_tag_defs)

lemma parse_bitcoinFile:
  "parseOts decode bitcoinFile =
    Inr \<lparr>hashOp = HashSha256, fileDigest = zeros32,
         timestamp = Timestamp [Bitcoin 5] [(Append [0x07], Timestamp [Litecoin 9] [])]\<rparr>"
proof -
  have v5: "varuintFromSlice [0x05] = Inr 5" and v9: "varuintFromSlice [0x09] = Inr 9"
    by (simp_all add: varuintFromSlice_def readVaruint_def readVaruint_loop_Cons)
  have a1: "parseAttestation decode (ATT_TAG_BITCOIN @ [0x01, 0x05] @ c) = Inr (Bitcoin 5, c)" for c
    using parseAttestation_height(1) [OF readVarbytes_short [of 1 "[0x05]" c] v5] by simp
  have a2: "parseAttestation decode (ATT_TAG_LITECOIN @ [0x01, 0x09]) = Inr (Litecoin 9, [])"
    using parseAttestation_height(2) [OF readVarbytes_short [of 1 "[0x09]" "[]"] v9] by simp
  have b2: "parseTimestampBranch decode (0x00 # ATT_TAG_LITECOIN @ [0x01, 0x09]) [] [] 1 =
      Inr ([], [Litecoin 9], [])"
    using parseTimestampBranch_attestation [OF a2, of "[]" "[]" 1] by (simp add: tag_defs)
  have t2: "parseTimestamp decode (0x00 # ATT_TAG_LITECOIN @ [0x01, 0x09]) 1 =
      Inr (Timestamp [Litecoin 9] [], [])"
    using b2 by (intro parseTimestamp_single_branch) (simp_all add: MAX_DEPTH_def tag_defs)
  have op: "parseOperation ([0xf0, 0x01, 0x07] @ c) = Inr (Append [0x07], c)" for c
    using readVarbytes_short [of 1 "[0x07]" c]
    by (simp add: parseOperation_def readByte_def tag_defs)
  have b1: "parseTimestampBranch decode ([0xf0, 0x01, 0x07, 0x00] @ ATT_TAG_LITECOIN @ [0x01, 0x09])
      atts0 [] 0 = Inr ([], atts0, [(Append [0x07], Timestamp [Litecoin 9] [])])" for atts0
    using parseTimestampBranch_operation
      [of "[0xf0, 0x01, 0x07, 0x00] @ ATT_TAG_LITECOIN @ [0x01, 0x09]" "Append [0x07]"
          "0x00 # ATT_TAG_LITECOIN @ [0x01, 0x09]" decode 0 "Timestamp [Litecoin 9] []" "[]" atts0 "[]"]
      op [of "0x00 # ATT_TAG_LITECOIN @ [0x01, 0x09]"] t2
    by simp
  have b0: "parseTimestampBranch decode (0x00 # ATT_TAG_BITCOIN @ [0x01, 0x05] @ c) [] [] 0 =
      Inr (c, [Bitcoin 5], [])" for c
    using parseTimestampBranch_attestation [OF a1, of c "[]" "[]" 0] by (simp add: tag_defs)
  have "parseTimestamp decode ([0xff, 0x00] @ ATT_TAG_BITCOIN @ [0x01, 0x05] @
      [0xf0, 0x01, 0x07, 0x00] @ ATT_TAG_LITECOIN @ [0x01, 0x09]) 0 =
      Inr (Timestamp [Bitcoin 5] [(Append [0x07], Timestamp [Litecoin 9] [])], [])"
    using b0 [of "[0xf0, 0x01, 0x07, 0x00] @ ATT_TAG_LITECOIN @ [0x01, 0x09]"] b1 [of "[Bitcoin 5]"]
    by (simp add: parseTimestamp.simps parseTimestamp_forks.simps [of decode "0xff # x" for x]
          parseTimestamp_forks.simps [of decode "0xf0 # x" for x]
          remaining_def peek_def readByte_def tag_defs MAX_DEPTH_def)
  then show ?thesis
    using parseOts_body [of zeros32 HashSha256 decode
      "[0xff, 0x00] @ ATT_TAG_BITCOIN @ [0x01, 0x05] @
       [0xf0, 0x01, 0x07, 0x00] @ ATT_TAG_LITECOIN @ [0x01, 0x09]"]
    by (simp add: bitcoinFile_def zeros32_def tag_defs)
qed

lemma merkleRoot_zero: "merkleRootToLeBytes (replicate 64 (CHR ''0'')) = Inr zeros32"
  by code_simp

lemma writeVaruint_small: "n < 128 \<Longrightarrow> writeVaruint buf n = buf @ [of_nat n]"
  by (simp add: writeVaruint_step [of buf n])

lemma writeOts_pendingOts:
  "writeOts pendingOts =
     HEADER_MAGIC @ [0x01, 0x08] @ zeros32 @ [0x00] @ ATT_TAG_PENDING @ [45] @ textEncode aliceUri"
proof -
  have w: "writeVaruint buf (Suc 0) = buf @ [0x01]" "writeVaruint buf 45 = buf @ [45]" for buf
    using writeVaruint_small [of "Suc 0" buf] writeVaruint_small [of 45 buf] by simp_all
  have l: "length (textEncode aliceUri) = 45" by (simp add: textEncode_def aliceUri_def)
  show ?thesis
    by (simp add: writeOts_def pendingOts_def push_def extend_def w writeVarbytes_def l
          tag_defs Let_def)
qed

section \<open>Pending responses and the calendar of the instances\<close>

lemma bytesToHex_zeros: "bytesToHex (replicate n 0) = replicate (2 * n) (CHR ''0'')"
  by (induction n) (simp_all add: HEX_CHARS_def)

lemma textDecodeAscii_textEncode: "textDecodeAscii (textEncode s) = s"
proof -
  have "char_of (unat (of_nat (of_char ch :: nat) :: byte)) = ch" for ch :: char
  proof -
    have "(of_char ch :: nat) < 256" by simp
    then have "unat (of_nat (of_char ch :: nat) :: byte) = of_char ch"
      by (simp add: unsigned_of_nat take_bit_nat_eq_self)
    then show ?thesis by simp
  qed
  then show ?thesis
    by (simp add: textDecodeAscii_def textEncode_def comp_def)
qed

lemma writeVarbytes_short:
  "length d < 128 \<Longrightarrow> writeVarbytes buf d = buf @ of_nat (length d) # d"
  by (simp add: writeVarbytes_def extend_def writeVaruint_small)

lemma pendingResponse_short:
  assumes "length uri < 127"
  shows "pendingResponse uri =
    TAG_ATTESTATION # ATT_TAG_PENDING @
      of_nat (length uri + 1) # of_nat (length uri) # textEncode uri"
proof -
  have l: "length (textEncode uri) = length uri" by (simp add: textEncode_def)
  have "writeVarbytes [] (textEncode uri) = of_nat (length uri) # textEncode uri"
    using writeVarbytes_short [of "textEncode uri" "[]"] assms l by simp
  moreover have "writeVarbytes [] (of_nat (length uri) # textEncode uri) =
      of_nat (length uri + 1) # of_nat (length uri) # textEncode uri"
    using writeVarbytes_short [of "of_nat (length uri) # textEncode uri" "[]"] assms l by simp
  ultimately show ?thesis by (simp add: pendingResponse_def tag_defs)
qed

lemma parseTimestampBranch_pendingResponse:
  assumes "length uri < 127"
  shows "parseTimestampBranch decode (pendingResponse uri @ rest) atts0 ops0 depth =
    Inr (rest, atts0 @ [Pending (decode (textEncode uri))], ops0)"
proof -
  have l: "length (textEncode uri) = length uri" by (simp add: textEncode_def)
  have outer: "readVarbytes (of_nat (length uri + 1) # (of_nat (length uri) # textEncode uri) @ rest) =
      Inr (of_nat (length uri) # textEncode uri, rest)"
    using assms l by (intro readVarbytes_short) simp_all
  have inner: "readVarbytes (of_nat (length uri) # textEncode uri @ []) = Inr (textEncode uri, [])"
    using assms l by (intro readVarbytes_short) simp_all
  have "parseAttestation decode
      (ATT_TAG_PENDING @ of_nat (length uri + 1) # (of_nat (length uri) # textEncode uri) @ rest) =
      Inr (Pending (decode (textEncode uri)), rest)"
    using inner by (intro parseAttestation_pending [OF outer]) simp
  from parseTimestampBranch_attestation [OF this, of atts0 ops0 depth] show ?thesis
    by (simp add: pendingResponse_short [OF assms])
qed



section \<open>The verification walk\<close>

lemma walkTimestamp_attestations_eq:
  "walkTimestamp_attestations getBlockInfo atts msg results =
   results @ map (\<lambda>a. checkAttestation getBlockInfo a msg) atts"
  by (induction atts arbitrary: results) simp_all

lemma walkTimestamp_paths:
  "d + treeDepth ts \<le> MAX_DEPTH \<Longrightarrow> opsSucceed cr ts msg \<Longrightarrow>
     walkTimestamp cr getBlockInfo ts msg d =
     map (\<lambda>(a, m). checkAttestation getBlockInfo a m) (attestationPaths cr ts msg)"
  "d + treeDepth_ops tsOps \<le> MAX_DEPTH \<Longrightarrow> opsSucceed_ops cr tsOps msg \<Longrightarrow>
     walkTimestamp_ops cr getBlockInfo tsOps msg d results =
     results @ map (\<lambda>(a, m). checkAttestation getBlockInfo a m) (attestationPaths_ops cr tsOps msg)"
proof (induction cr getBlockInfo ts msg d and cr getBlockInfo tsOps msg d results
       rule: walkTimestamp_walkTimestamp_ops.induct)
  case (1 cr getBlockInfo atts tsOps msg depth)
  from "1.prems" have nd: "\<not> depth > MAX_DEPTH" by simp
  from "1.prems" "1.IH" [OF nd refl] show ?case
    by (simp add: walkTimestamp_attestations_eq comp_def)
next
  case (2 cr getBlockInfo msg depth results)
  show ?case by simp
next
  case (3 cr getBlockInfo op child rest msg depth results)
  from "3.prems"(2) obtain newMsg where
    a: "applyOperation cr op msg = Inr newMsg" and
    c: "opsSucceed cr child newMsg" and r: "opsSucceed_ops cr rest msg"
    by (auto split: sum.splits)
  from "3.prems"(1) have dc: "depth + 1 + treeDepth child \<le> MAX_DEPTH"
    and dr: "depth + treeDepth_ops rest \<le> MAX_DEPTH" by simp_all
  have w: "walkTimestamp cr getBlockInfo child newMsg (depth + 1) =
      map (\<lambda>(a, m). checkAttestation getBlockInfo a m) (attestationPaths cr child newMsg)"
    using "3.IH"(2) [OF a dc c] .
  have "walkTimestamp_ops cr getBlockInfo rest msg depth
          (results @ walkTimestamp cr getBlockInfo child newMsg (depth + 1)) =
        (results @ walkTimestamp cr getBlockInfo child newMsg (depth + 1)) @
        map (\<lambda>(a, m). checkAttestation getBlockInfo a m) (attestationPaths_ops cr rest msg)"
    using "3.IH"(3) [OF a refl dr r] .
  with a w show ?case by simp
qed

lemma attestationPaths_fst:
  "opsSucceed cr ts msg \<Longrightarrow> map fst (attestationPaths cr ts msg) = allAttestations ts"
  "opsSucceed_ops cr tsOps msg \<Longrightarrow>
     map fst (attestationPaths_ops cr tsOps msg) = allAttestations_ops tsOps"
  by (induction cr ts msg and cr tsOps msg rule: attestationPaths_attestationPaths_ops.induct)
     (auto simp: comp_def split: sum.splits)

lemma checkAttestation_resultFor: "resultFor a (checkAttestation getBlockInfo a msg)"
  by (cases a) (auto simp: verifyBitcoin_def split: sum.splits)

section \<open>Pending attestations of a tree\<close>

lemma hasPendingAttestation_attestations_iff:
  "hasPendingAttestation_attestations atts = (\<exists>uri. Pending uri \<in> set atts)"
  by (induction atts rule: hasPendingAttestation_attestations.induct) auto

lemma hasPendingAttestation_iff:
  "hasPendingAttestation ts = (\<exists>uri. Pending uri \<in> set (allAttestations ts))"
  "hasPendingAttestation_ops tsOps = (\<exists>uri. Pending uri \<in> set (allAttestations_ops tsOps))"
  by (induction ts and tsOps rule: hasPendingAttestation_hasPendingAttestation_ops.induct)
     (auto simp: hasPendingAttestation_attestations_iff)

section \<open>The upgrade of one node\<close>




section \<open>The value and the length of a varuint\<close>

lemma readVaruint_loop_value:
  "readVaruint_loop a s v = Inr (h, r) \<Longrightarrow>
   \<exists>pre. v = pre @ r \<and> pre \<noteq> [] \<and> h = a + 2 ^ s * varuintValue pre"
proof (induction v arbitrary: a s)
  case Nil
  then show ?case by (simp add: readVaruint_loop_Nil)
next
  case (Cons b v)
  show ?case
  proof (cases "b AND 0x80 = 0")
    case True
    with Cons.prems have "h = a + unat (b AND 0x7f) * 2 ^ s" "r = v"
      by (auto simp: readVaruint_loop_Cons split: if_splits)
    then have "b # v = [b] @ r \<and> [b] \<noteq> [] \<and> h = a + 2 ^ s * varuintValue [b]"
      by simp
    then show ?thesis by blast
  next
    case False
    with Cons.prems have
      "readVaruint_loop (a + unat (b AND 0x7f) * 2 ^ s) (s + 7) v = Inr (h, r)"
      by (auto simp: readVaruint_loop_Cons split: if_splits)
    from Cons.IH [OF this] obtain pre where
      pre: "v = pre @ r" "h = a + unat (b AND 0x7f) * 2 ^ s + 2 ^ (s + 7) * varuintValue pre"
      by blast
    have "(2::nat) ^ (s + 7) = 2 ^ s * 128" by (simp add: power_add)
    with pre have "b # v = (b # pre) @ r \<and> b # pre \<noteq> [] \<and>
        h = a + 2 ^ s * varuintValue (b # pre)"
      by (simp add: algebra_simps)
    then show ?thesis by blast
  qed
qed

lemma varuintValue_bound: "varuintValue pre < 128 ^ length pre"
proof (induction pre)
  case Nil
  show ?case by simp
next
  case (Cons b pre)
  have "unat (b AND 0x7f) \<le> unat (0x7f :: byte)"
    by (rule word_and_le1 [THEN word_le_nat_alt [THEN iffD1]])
  then have "unat (b AND 0x7f) < 128" by simp
  moreover from Cons.IH have "varuintValue pre + 1 \<le> 128 ^ length pre" by simp
  then have "128 * (varuintValue pre + 1) \<le> 128 * 128 ^ length pre"
    by (rule mult_le_mono2)
  ultimately show ?case by simp
qed

lemma writeVaruint_length: "n < 128 ^ k \<Longrightarrow> 0 < k \<Longrightarrow> length (writeVaruint [] n) \<le> k"
proof (induction k arbitrary: n)
  case 0
  then show ?case by simp
next
  case (Suc k)
  show ?case
  proof (cases "n div 128 \<noteq> 0")
    case False
    then show ?thesis by (simp add: writeVaruint_step [of "[]" n])
  next
    case True
    from Suc.prems(1) have d: "n div 128 < 128 ^ k"
      by (simp add: less_mult_imp_div_less mult.commute)
    with True have "0 < k" by (cases k) auto
    from Suc.IH [OF d this] True show ?thesis
      using writeVaruint_append [of "[of_nat (n mod 128) OR 0x80]" "n div 128"]
      by (simp add: writeVaruint_step [of "[]" n])
  qed
qed

lemma readVaruint_loop_safe:
  "readVaruint_loop a s v = Inr (h, r) \<Longrightarrow> s mod 7 = 0 \<Longrightarrow> a < 2 ^ min s 53 \<Longrightarrow> h < 2 ^ 53"
proof (induction v arbitrary: a s)
  case Nil
  then show ?case by (simp add: readVaruint_loop_Nil)
next
  case (Cons b v)
  let ?p = "unat (b AND 0x7f)"
  have p128: "?p < 128"
  proof -
    have "?p \<le> unat (0x7f :: byte)"
      by (rule word_and_le1 [THEN word_le_nat_alt [THEN iffD1]])
    then show ?thesis by simp
  qed
  from Cons.prems(1) have g56: "\<not> (56 \<le> s \<and> 0 < b AND 0x7f)"
    and g49: "\<not> (49 \<le> s \<and> 15 < b AND 0x7f)"
    by (auto simp: readVaruint_loop_Cons split: if_splits)
  have bound: "a + ?p * 2 ^ s < 2 ^ min (s + 7) 53"
  proof -
    have "s \<le> 42 \<or> s = 49 \<or> 56 \<le> s"
      using Cons.prems(2) by presburger
    then consider "s \<le> 42" | "s = 49" | "56 \<le> s" by blast
    then show ?thesis
    proof cases
      case 1
      then have m: "min s 53 = s" "min (s + 7) 53 = s + 7" by simp_all
      have le: "?p * 2 ^ s \<le> 127 * 2 ^ s" using p128 by simp
      have alt: "a < 2 ^ s" using Cons.prems(3) m by simp
      from le alt have "a + ?p * 2 ^ s < 128 * 2 ^ s" by linarith
      moreover have "(2::nat) ^ (s + 7) = 128 * 2 ^ s" by (simp add: power_add)
      ultimately show ?thesis using m by simp
    next
      case 2
      with g49 have "\<not> 15 < b AND 0x7f" by simp
      then have "b AND 0x7f \<le> 15" by simp
      then have "?p \<le> unat (15 :: byte)" by (simp add: word_le_nat_alt)
      then have "?p \<le> 15" by simp
      then have le: "?p * 2 ^ 49 \<le> 15 * 2 ^ 49" by simp
      have alt: "a < 2 ^ 49" using Cons.prems(3) 2 by simp
      from le alt have "a + ?p * 2 ^ 49 < 2 ^ 53" by simp
      with 2 show ?thesis by simp
    next
      case 3
      with g56 have "\<not> 0 < b AND 0x7f" by simp
      then have "b AND 0x7f = 0" by (simp add: word_greater_zero_iff)
      with Cons.prems(3) 3 show ?thesis by simp
    qed
  qed
  show ?case
  proof (cases "b AND 0x80 = 0")
    case True
    with Cons.prems(1) have "h = a + ?p * 2 ^ s"
      by (auto simp: readVaruint_loop_Cons split: if_splits)
    moreover have "(2::nat) ^ min (s + 7) 53 \<le> 2 ^ 53" by (intro power_increasing) simp_all
    ultimately show ?thesis using bound by simp
  next
    case False
    with Cons.prems(1) have
      "readVaruint_loop (a + ?p * 2 ^ s) (s + 7) v = Inr (h, r)"
      by (auto simp: readVaruint_loop_Cons split: if_splits)
    from Cons.IH [OF this _ bound] Cons.prems(2) show ?thesis by simp
  qed
qed

lemma writeAttestation_height:
  "writeAttestation [] (Bitcoin h) =
     TAG_ATTESTATION # ATT_TAG_BITCOIN @ writeVarbytes [] (writeVaruint [] h)"
  "writeAttestation [] (Litecoin h) =
     TAG_ATTESTATION # ATT_TAG_LITECOIN @ writeVarbytes [] (writeVaruint [] h)"
  "writeAttestation [] (Ethereum h) =
     TAG_ATTESTATION # ATT_TAG_ETHEREUM @ writeVarbytes [] (writeVaruint [] h)"
  using writeVaruint_append [of "TAG_ATTESTATION # x" for x]
  by (simp_all add: push_def extend_def writeVarbytes_def)

section \<open>Sibling branches after fork markers\<close>

lemma stampHash_forks_eq:
  "stampHash_forks buf rs = buf @ concat (map (\<lambda>r. TAG_FORK # snd r) rs)"
  by (induction buf rs rule: stampHash_forks.induct) (simp_all add: push_def extend_def)

lemma parseTimestampBranch_start:
  "parseTimestampBranch decode c atts0 ops0 depth = Inr x \<Longrightarrow> c \<noteq> [] \<and> hd c \<noteq> TAG_FORK"
proof (cases c)
  case Nil
  assume "parseTimestampBranch decode c atts0 ops0 depth = Inr x"
  with Nil show ?thesis by (simp add: parseTimestampBranch.simps peek_def)
next
  case (Cons tag c0)
  assume a: "parseTimestampBranch decode c atts0 ops0 depth = Inr x"
  show ?thesis
  proof (cases "tag = TAG_ATTESTATION")
    case True
    with Cons show ?thesis by (simp add: tag_defs)
  next
    case False
    with a Cons obtain op c1 where "parseOperation c = Inr (op, c1)"
      by (auto simp: parseTimestampBranch.simps peek_def split: sum.splits)
    from parseOperation_tag [OF this] Cons show ?thesis by auto
  qed
qed

lemma isBranch_start: "isBranch decode depth r as os \<Longrightarrow> r \<noteq> [] \<and> hd r \<noteq> TAG_FORK"
  using parseTimestampBranch_start [of decode r "[]" "[]" depth]
  by (auto simp: isBranch_def dest!: spec [where x = "[]"])

lemma parseTimestamp_forks_branches:
  assumes "list_all2 (\<lambda>r b. isBranch decode depth (snd r) (fst b) (snd b)) rs bs"
  shows "parseTimestamp_forks decode (concat (map (\<lambda>r. TAG_FORK # snd r) rs) @ after) atts0 ops0 depth =
         parseTimestamp_forks decode after (atts0 @ concat (map fst bs)) (ops0 @ concat (map snd bs)) depth"
  using assms
proof (induction rs bs arbitrary: atts0 ops0 rule: list_all2_induct)
  case Nil
  show ?case by simp
next
  case (Cons r rs b bs)
  have br: "parseTimestampBranch decode (snd r @ rest) atts0 ops0 depth =
      Inr (rest, atts0 @ fst b, ops0 @ snd b)" for rest
    using Cons.hyps(1) by (simp add: isBranch_def)
  have "parseTimestamp_forks decode
      (concat (map (\<lambda>r. TAG_FORK # snd r) (r # rs)) @ after) atts0 ops0 depth =
      parseTimestamp_forks decode (concat (map (\<lambda>r. TAG_FORK # snd r) rs) @ after)
        (atts0 @ fst b) (ops0 @ snd b) depth"
    by (subst parseTimestamp_forks.simps) (simp add: remaining_def peek_def readByte_def br)
  with Cons.IH [of "atts0 @ fst b" "ops0 @ snd b"] show ?case by simp
qed

lemma parseTimestamp_leaf:
  assumes "list_all2 (\<lambda>r b. isBranch decode depth (snd r) (fst b) (snd b)) rs bs"
    and "rs \<noteq> []" and "depth \<le> MAX_DEPTH"
  shows "parseTimestamp decode
      (concat (map (\<lambda>r. TAG_FORK # snd r) (butlast rs)) @ snd (last rs)) depth =
    Inr (Timestamp (concat (map fst bs)) (concat (map snd bs)), [])"
proof -
  from assms(1,2) have bne: "bs \<noteq> []" by (auto simp: list_all2_Nil2)
  have l2: "list_all2 (\<lambda>r b. isBranch decode depth (snd r) (fst b) (snd b)) (butlast rs) (butlast bs)"
    using assms(1) by (simp add: butlast_conv_take list_all2_takeI list_all2_lengthD)
  have ll: "isBranch decode depth (snd (last rs)) (fst (last bs)) (snd (last bs))"
  proof -
    have len: "length rs = length bs" using assms(1) by (rule list_all2_lengthD)
    have "length bs - 1 < length rs" using bne len by simp
    from list_all2_nthD [OF assms(1) this] show ?thesis
      using assms(2) bne len by (simp add: last_conv_nth)
  qed
  from isBranch_start [OF ll] have st: "snd (last rs) \<noteq> []" "hd (snd (last rs)) \<noteq> TAG_FORK"
    by simp_all
  have f: "parseTimestamp_forks decode
      (concat (map (\<lambda>r. TAG_FORK # snd r) (butlast rs)) @ snd (last rs)) [] [] depth =
      Inr (snd (last rs), concat (map fst (butlast bs)), concat (map snd (butlast bs)))"
  proof -
    have "parseTimestamp_forks decode (snd (last rs)) a o' depth = Inr (snd (last rs), a, o')"
      for a o'
      using st by (cases "snd (last rs)") (simp_all add: parseTimestamp_forks.simps peek_def)
    with parseTimestamp_forks_branches [OF l2, of "snd (last rs)" "[]" "[]"] show ?thesis
      by simp
  qed
  have b: "parseTimestampBranch decode (snd (last rs))
      (concat (map fst (butlast bs))) (concat (map snd (butlast bs))) depth =
      Inr ([], concat (map fst (butlast bs)) @ fst (last bs),
               concat (map snd (butlast bs)) @ snd (last bs))"
  proof -
    from ll have "parseTimestampBranch decode (snd (last rs) @ [])
        (concat (map fst (butlast bs))) (concat (map snd (butlast bs))) depth =
        Inr ([], concat (map fst (butlast bs)) @ fst (last bs),
                 concat (map snd (butlast bs)) @ snd (last bs))"
      unfolding isBranch_def by blast
    then show ?thesis by simp
  qed
  have c: "concat (map g (butlast bs)) @ g (last bs) = concat (map g bs)" for g :: "_ \<Rightarrow> 'x list"
  proof -
    have "bs = butlast bs @ [last bs]" using bne by simp
    then have "concat (map g bs) = concat (map g (butlast bs @ [last bs]))" by simp
    then show ?thesis by simp
  qed
  show ?thesis
    using assms(3) f b st c [of fst] c [of snd]
    by (simp add: parseTimestamp.simps remaining_def)
qed

lemma writeVarbytes_append: "writeVarbytes buf d = buf @ writeVarbytes [] d"
  using writeVaruint_append [of buf "length d"] by (simp add: writeVarbytes_def extend_def)

lemma parseTimestamp_stamp_tree:
  assumes "length nonce \<le> 1048576"
    and "parseTimestamp decode leaf 2 = Inr (leafNode, [])"
  shows "parseTimestamp decode ([TAG_PREPEND] @ writeVarbytes [] nonce @ [TAG_SHA256] @ leaf) 0 =
    Inr (Timestamp [] [(Prepend nonce, Timestamp [] [(Sha256, leafNode)])], [])"
proof -
  have o2: "parseOperation ([TAG_SHA256] @ leaf) = Inr (Sha256, leaf)"
    by (simp add: parseOperation_def readByte_def tag_defs)
  have b2: "parseTimestampBranch decode ([TAG_SHA256] @ leaf) [] [] 1 =
      Inr ([], [], [] @ [(Sha256, leafNode)])"
  proof -
    have "(1::nat) + 1 = 2" by simp
    then have "parseTimestamp decode leaf (1 + 1) = Inr (leafNode, [])"
      using assms(2) by (simp only:)
    with o2 show ?thesis by (rule parseTimestampBranch_operation)
  qed
  have t1: "parseTimestamp decode ([TAG_SHA256] @ leaf) (0 + 1) =
      Inr (Timestamp [] [(Sha256, leafNode)], [])"
    using b2 by (intro parseTimestamp_single_branch) (simp_all add: MAX_DEPTH_def tag_defs)
  have o1: "parseOperation ([TAG_PREPEND] @ writeVarbytes [] nonce @ [TAG_SHA256] @ leaf) =
      Inr (Prepend nonce, [TAG_SHA256] @ leaf)"
    using readVarbytes_writeVarbytes [OF assms(1), of "[TAG_SHA256] @ leaf"]
    by (simp add: parseOperation_def readByte_def tag_defs)
  have b1: "parseTimestampBranch decode
      ([TAG_PREPEND] @ writeVarbytes [] nonce @ [TAG_SHA256] @ leaf) [] [] 0 =
      Inr ([], [], [] @ [(Prepend nonce, Timestamp [] [(Sha256, leafNode)])])"
    using o1 t1 by (rule parseTimestampBranch_operation)
  then show ?thesis
    by (intro parseTimestamp_single_branch) (simp_all add: MAX_DEPTH_def tag_defs)
qed

lemma stampHash_bytes:
  assumes "hexToBytes sha256Hex = Inr digest" and "length digest = 32"
    and "stampHash_submit post (sha256 cr (nonce @ digest)) CALENDAR_SERVERS ([], []) =
           (responses, errs)"
    and "responses \<noteq> []"
  shows "stampHash cr post nonce sha256Hex =
    Inr (HEADER_MAGIC @ [0x01, HASH_OP_TO_TAG HashSha256] @ digest @
         [TAG_PREPEND] @ writeVarbytes [] nonce @ [TAG_SHA256] @
         concat (map (\<lambda>r. TAG_FORK # snd r) (butlast responses)) @ snd (last responses))"
proof -
  have one: "length responses > 1 \<or> butlast responses = []"
    using assms(4) by (cases responses) (auto simp: butlast_conv_take)
  have f: "(if length responses > 1 then stampHash_forks buf (butlast responses) else buf) =
      buf @ concat (map (\<lambda>r. TAG_FORK # snd r) (butlast responses))" for buf
    using one by (auto simp: stampHash_forks_eq)
  have v: "writeVaruint HEADER_MAGIC 1 = HEADER_MAGIC @ [0x01]"
    using writeVaruint_small [of 1 HEADER_MAGIC] by simp
  have w: "writeVarbytes (HEADER_MAGIC @ 0x01 # TAG_SHA256 # digest @ [TAG_PREPEND]) nonce =
      (HEADER_MAGIC @ 0x01 # TAG_SHA256 # digest @ [TAG_PREPEND]) @ writeVarbytes [] nonce"
    by (rule writeVarbytes_append)
  have s: "stampHash_submit post (sha256 cr (nonce @ digest)) CALENDAR_SERVERS ([], []) =
      (responses, errs)" by (rule assms(3))
  show ?thesis
    unfolding stampHash_def
    by (simp add: assms(1,2,4) s Let_def f push_def extend_def v w del: One_nat_def)
qed

lemma hexToBytes_loop_a:
  "hexToBytes_loop (replicate (2 * n) (CHR ''a'')) i = Inr (replicate n 0xaa)"
  by (induction n arbitrary: i) (simp_all add: parseIntHex_def)

lemma hexToBytes_digestHex: "hexToBytes digestHex = Inr digestAA"
  using hexToBytes_loop_a [of 32 0] by (simp add: hexToBytes_def digestHex_def digestAA_def)

lemma submit_both:
  assumes "body0 \<noteq> []" and "length body0 \<le> 65536"
  shows "stampHash_submit (\<lambda>url digest. Inr \<lparr>status = 200, body = body0\<rparr>) d
      CALENDAR_SERVERS ([], []) =
    ([(''https://alice.btc.calendar.opentimestamps.org'', body0),
      (''https://bob.btc.calendar.opentimestamps.org'', body0)], [])"
  using assms by (simp add: CALENDAR_SERVERS_def submitToCalendar_def ok_def)

lemma stampPrefix_eq:
  "HEADER_MAGIC @ [0x01, HASH_OP_TO_TAG HashSha256] @ digestAA @
     [TAG_PREPEND] @ writeVarbytes [] nonce16 @ [TAG_SHA256] @ leaf = stampPrefix @ leaf"
  using writeVarbytes_short [of nonce16 "[]"]
  by (simp add: stampPrefix_def nonce16_def tag_defs)

lemma parseTimestampBranch_operation_error:
  assumes "parseOperation c = Inr (op, c1)"
    and "parseTimestamp decode c1 (depth + 1) = Inl e"
  shows "parseTimestampBranch decode c atts0 ops0 depth = Inl e"
proof -
  from parseOperation_tag [OF assms(1)] obtain tag c0 where
    "c = tag # c0" "tag \<noteq> TAG_ATTESTATION" by blast
  with assms show ?thesis
    by (simp add: parseTimestampBranch.simps peek_def)
qed

lemma parseTimestamp_single_branch_error:
  assumes "depth \<le> MAX_DEPTH" and "c \<noteq> []" and "hd c \<noteq> TAG_FORK"
    and "parseTimestampBranch decode c [] [] depth = Inl e"
  shows "parseTimestamp decode c depth = Inl e"
proof -
  from assms(2,3) have "parseTimestamp_forks decode c [] [] depth = Inr (c, [], [])"
    by (cases c) (simp_all add: parseTimestamp_forks.simps peek_def)
  with assms show ?thesis
    by (simp add: parseTimestamp.simps remaining_def)
qed

lemma parseTimestamp_twoBitcoin:
  "parseTimestampFromBytes decode twoBitcoin = Inr (Timestamp [Bitcoin 5, Bitcoin 6] [])"
proof -
  have v5: "varuintFromSlice [0x05] = Inr 5" and v6: "varuintFromSlice [0x06] = Inr 6"
    by (simp_all add: varuintFromSlice_def readVaruint_def readVaruint_loop_Cons)
  have a1: "parseAttestation decode (ATT_TAG_BITCOIN @ [0x01, 0x05] @ c) = Inr (Bitcoin 5, c)" for c
    using parseAttestation_height(1) [OF readVarbytes_short [of 1 "[0x05]" c] v5] by simp
  have a2: "parseAttestation decode (ATT_TAG_BITCOIN @ [0x01, 0x06] @ c) = Inr (Bitcoin 6, c)" for c
    using parseAttestation_height(1) [OF readVarbytes_short [of 1 "[0x06]" c] v6] by simp
  have b1: "parseTimestampBranch decode (0x00 # ATT_TAG_BITCOIN @ [0x01, 0x05] @ c) [] [] 0 =
      Inr (c, [Bitcoin 5], [])" for c
    using parseTimestampBranch_attestation [OF a1, of c "[]" "[]" 0] by (simp add: tag_defs)
  have b2: "parseTimestampBranch decode (0x00 # ATT_TAG_BITCOIN @ [0x01, 0x06] @ []) [Bitcoin 5] [] 0 =
      Inr ([], [Bitcoin 5, Bitcoin 6], [])"
    using parseTimestampBranch_attestation [OF a2, of "[]" "[Bitcoin 5]" "[]" 0]
    by (simp add: tag_defs)
  have "parseTimestamp decode twoBitcoin 0 = Inr (Timestamp [Bitcoin 5, Bitcoin 6] [], [])"
    using b1 [of "0x00 # ATT_TAG_BITCOIN @ [0x01, 0x06] @ []"] b2
    by (simp add: twoBitcoin_def parseTimestamp.simps
          parseTimestamp_forks.simps [of decode "0xff # x" for x]
          parseTimestamp_forks.simps [of decode "0x00 # x" for x]
          remaining_def peek_def readByte_def tag_defs MAX_DEPTH_def)
  then show ?thesis by (simp add: parseTimestampFromBytes_def)
qed

section \<open>C1: writing and reading back a Pending attestation\<close>

text \<open>
  C1 says that parsing what \<open>writeOts\<close> wrote gives the file back, in particular for a
  Pending attestation, whose payload is a varbytes inside a varbytes. \<open>parseAttestation\<close>
  reads it so; \<open>writeAttestation\<close> writes the URI as one varbytes, without the inner
  length. The file with the single attestation \<open>Pending(aliceUri)\<close> is written and
  cannot be read back: the parser takes the first byte of the URI, \<open>h\<close>, for the
  inner length 104 and runs out of data.
\<close>

theorem pending_roundtrip_fails:
  "parseOts textDecodeAscii (writeOts pendingOts) = Inl UnexpectedEndOfFile"
proof -
  have l: "length (textEncode aliceUri) = 45" by (simp add: textEncode_def aliceUri_def)
  have outer: "readVarbytes ([45] @ textEncode aliceUri) = Inr (textEncode aliceUri, [])"
    using readVarbytes_short [of 45 "textEncode aliceUri" "[]"] l by simp
  have inner: "readVarbytes (textEncode aliceUri) = Inl UnexpectedEndOfFile"
    by (simp add: textEncode_def aliceUri_def readVarbytes_def readVaruint_def
          readVaruint_loop_Cons readBytes_def)
  have a: "parseAttestation textDecodeAscii (ATT_TAG_PENDING @ [45] @ textEncode aliceUri) =
      Inl UnexpectedEndOfFile"
    using outer inner
    by (simp add: parseAttestation_def readBytes_def constantTimeEqual_iff att_tag_defs)
  have b: "parseTimestampBranch textDecodeAscii
      ([0x00] @ ATT_TAG_PENDING @ [45] @ textEncode aliceUri) [] [] 0 = Inl UnexpectedEndOfFile"
    using a by (simp add: parseTimestampBranch.simps peek_def readByte_def tag_defs)
  have f: "parseTimestamp_forks textDecodeAscii
      ([0x00] @ ATT_TAG_PENDING @ [45] @ textEncode aliceUri) [] [] 0 =
      Inr ([0x00] @ ATT_TAG_PENDING @ [45] @ textEncode aliceUri, [], [])"
    by (simp add: parseTimestamp_forks.simps peek_def tag_defs)
  have t: "parseTimestamp textDecodeAscii
      ([0x00] @ ATT_TAG_PENDING @ [45] @ textEncode aliceUri) 0 = Inl UnexpectedEndOfFile"
    using b f by (simp add: parseTimestamp.simps remaining_def MAX_DEPTH_def)
  show ?thesis
    using parseOts_body [of zeros32 HashSha256 textDecodeAscii
        "[0x00] @ ATT_TAG_PENDING @ [45] @ textEncode aliceUri"] t
    by (simp add: writeOts_pendingOts zeros32_def tag_defs)
qed

section \<open>C2: the overflow guards of \<open>readVaruint\<close>\<close>

text \<open>
  C2, as stated, says that every varuint of nine or more bytes fails with an overflow
  whatever the payload bits of the later bytes are. The guard of the source is on the
  payload (\<open>shift >= 56 && payload > 0\<close>), not on the continuation bit: nine bytes whose
  ninth byte is \<open>0x00\<close> are read as a number. Counterexample to C2.
\<close>

theorem readVaruint_nine_bytes_counterexample:
  "readVaruint [0x80, 0x80, 0x80, 0x80, 0x80, 0x80, 0x80, 0x80, 0x00] = Inr (0, [])"
  by (simp add: readVaruint_def readVaruint_loop_Cons)

text \<open>
  C2, amended. After seven bytes with the continuation bit set: an eighth byte whose
  payload exceeds 15 raises the overflow; an eighth byte with payload at most 15 and the
  continuation bit set, followed by a ninth byte with a non-zero payload, raises the
  overflow; and the same eight bytes followed by the ninth byte \<open>0x00\<close> are accepted,
  with the value of the first eight bytes.
\<close>

theorem readVaruint_overflow_guards:
  assumes "\<forall>b \<in> set pre. b AND 0x80 \<noteq> 0" and "length pre = 7"
  shows "(15 < b8 AND 0x7f \<longrightarrow> readVaruint (pre @ b8 # rest) = Inl VaruintOverflow) \<and>
         (b8 AND 0x7f \<le> 15 \<and> b8 AND 0x80 \<noteq> 0 \<and> b9 AND 0x7f \<noteq> 0 \<longrightarrow>
            readVaruint (pre @ b8 # b9 # rest) = Inl VaruintOverflow) \<and>
         (b8 AND 0x7f \<le> 15 \<and> b8 AND 0x80 \<noteq> 0 \<and> b9 = 0 \<longrightarrow>
            readVaruint (pre @ b8 # b9 # rest) = Inr (varuintValue (pre @ [b8]), rest))"
proof -
  have seven: "readVaruint (pre @ tl) = readVaruint_loop (varuintValue pre) 49 tl" for tl
    using readVaruint_loop_continue [of pre 0 0 tl] assms by (simp add: readVaruint_def)
  have val: "varuintValue (pre @ [b]) = varuintValue pre + unat (b AND 0x7f) * 2 ^ 49" for b
    using varuintValue_snoc [of pre b] assms(2) by simp
  show ?thesis
  proof (intro conjI impI)
    assume "15 < b8 AND 0x7f"
    then show "readVaruint (pre @ b8 # rest) = Inl VaruintOverflow"
      by (simp add: seven readVaruint_loop_Cons)
  next
    assume a: "b8 AND 0x7f \<le> 15 \<and> b8 AND 0x80 \<noteq> 0 \<and> b9 AND 0x7f \<noteq> 0"
    then have "0 < b9 AND 0x7f" by (simp add: word_greater_zero_iff)
    moreover from a have "\<not> 15 < b8 AND 0x7f" by (meson leD)
    ultimately show "readVaruint (pre @ b8 # b9 # rest) = Inl VaruintOverflow"
      using a by (simp add: seven readVaruint_loop_Cons)
  next
    assume a: "b8 AND 0x7f \<le> 15 \<and> b8 AND 0x80 \<noteq> 0 \<and> b9 = 0"
    then have "\<not> 15 < b8 AND 0x7f" by (meson leD)
    then show "readVaruint (pre @ b8 # b9 # rest) = Inr (varuintValue (pre @ [b8]), rest)"
      using a by (simp add: seven val readVaruint_loop_Cons)
  qed
qed

theorem readVaruint_overflow_guards_witness:
  "readVaruint [0x80, 0x80, 0x80, 0x80, 0x80, 0x80, 0x80, 0x10] = Inl VaruintOverflow \<and>
   readVaruint [0x80, 0x80, 0x80, 0x80, 0x80, 0x80, 0x80, 0x80, 0x01] = Inl VaruintOverflow \<and>
   readVaruint [0x81, 0x80, 0x80, 0x80, 0x80, 0x80, 0x80, 0x8f, 0x00, 0x2a] =
     Inr (1 + 15 * 2 ^ 49, [0x2a])"
  using readVaruint_overflow_guards [of "[0x80, 0x80, 0x80, 0x80, 0x80, 0x80, 0x80]" "0x10" "[]" "0"]
    readVaruint_overflow_guards [of "[0x80, 0x80, 0x80, 0x80, 0x80, 0x80, 0x80]" "0x80" "[]" "0x01"]
    readVaruint_overflow_guards [of "[0x81, 0x80, 0x80, 0x80, 0x80, 0x80, 0x80]" "0x8f" "[0x2a]" "0"]
  by simp

section \<open>C3: a Timestamp region without a branch\<close>

text \<open>
  C3, as stated, says that an input that ends right after the file digest is rejected
  with an unexpected end of data. \<open>parseTimestamp\<close> reads the final branch only
  \<open>if (c.remaining() > 0)\<close>: the input is accepted and the root node has no
  attestation and no continuation. Counterexample to C3.
\<close>

theorem parser_empty_timestamp_counterexample:
  "parseOts textDecodeAscii (HEADER_MAGIC @ [0x01, 0x08] @ zeros32) =
     Inr \<lparr>hashOp = HashSha256, fileDigest = zeros32, timestamp = Timestamp [] []\<rparr>"
  by (rule parseOts_header_only) (simp add: zeros32_def)

text \<open>
  C3, amended. An input that ends right after the file digest parses to a file whose
  root node has no branch. An input that ends right after an operation (its tag and,
  for append and prepend, its operand) parses too, and the node under that operation has
  no branch: for the first operation of a file, and for an operation at any depth below
  256. No unexpected end of data is raised in these cases.
\<close>

theorem parser_accepts_node_without_branch:
  "(length d = HASH_OP_DIGEST_LEN hop \<longrightarrow>
      parseOts decode (HEADER_MAGIC @ [0x01, HASH_OP_TO_TAG hop] @ d) =
        Inr \<lparr>hashOp = hop, fileDigest = d, timestamp = Timestamp [] []\<rparr>) \<and>
   (length d = HASH_OP_DIGEST_LEN hop \<and> parseOperation c = Inr (op, []) \<longrightarrow>
      parseOts decode (HEADER_MAGIC @ [0x01, HASH_OP_TO_TAG hop] @ d @ c) =
        Inr \<lparr>hashOp = hop, fileDigest = d,
             timestamp = Timestamp [] [(op, Timestamp [] [])]\<rparr>) \<and>
   (depth < MAX_DEPTH \<and> parseOperation c = Inr (op, []) \<longrightarrow>
      parseTimestampBranch decode c atts0 ops0 depth =
        Inr ([], atts0, ops0 @ [(op, Timestamp [] [])]))"
proof (intro conjI impI)
  assume "length d = HASH_OP_DIGEST_LEN hop"
  then show "parseOts decode (HEADER_MAGIC @ [0x01, HASH_OP_TO_TAG hop] @ d) =
      Inr \<lparr>hashOp = hop, fileDigest = d, timestamp = Timestamp [] []\<rparr>"
    using parseOts_body [of d hop decode "[]"] by (simp add: parseTimestamp_at_end)
next
  assume a: "length d = HASH_OP_DIGEST_LEN hop \<and> parseOperation c = Inr (op, [])"
  then obtain tag c0 where c: "c = tag # c0" "tag \<noteq> TAG_FORK"
    using parseOperation_tag by blast
  have "parseTimestampBranch decode c [] [] 0 = Inr ([], [], [] @ [(op, Timestamp [] [])])"
    using a parseTimestamp_at_end [of "0 + 1" decode]
    by (intro parseTimestampBranch_operation) (simp_all add: MAX_DEPTH_def)
  then have "parseTimestamp decode c 0 = Inr (Timestamp [] [(op, Timestamp [] [])], [])"
    using c by (intro parseTimestamp_single_branch) simp_all
  then show "parseOts decode (HEADER_MAGIC @ [0x01, HASH_OP_TO_TAG hop] @ d @ c) =
      Inr \<lparr>hashOp = hop, fileDigest = d, timestamp = Timestamp [] [(op, Timestamp [] [])]\<rparr>"
    using a parseOts_body [of d hop decode c] by simp
next
  assume a: "depth < MAX_DEPTH \<and> parseOperation c = Inr (op, [])"
  then show "parseTimestampBranch decode c atts0 ops0 depth =
      Inr ([], atts0, ops0 @ [(op, Timestamp [] [])])"
    using parseTimestamp_at_end [of "depth + 1" decode]
    by (intro parseTimestampBranch_operation) simp_all
qed

theorem parser_accepts_node_without_branch_witness:
  "parseOts textDecodeAscii (HEADER_MAGIC @ [0x01, 0x02] @ replicate 20 0x11) =
     Inr \<lparr>hashOp = HashSha1, fileDigest = replicate 20 0x11, timestamp = Timestamp [] []\<rparr> \<and>
   parseOts textDecodeAscii (HEADER_MAGIC @ [0x01, 0x02] @ replicate 20 0x11 @ [0xf0, 0x01, 0x2a]) =
     Inr \<lparr>hashOp = HashSha1, fileDigest = replicate 20 0x11,
          timestamp = Timestamp [] [(Append [0x2a], Timestamp [] [])]\<rparr> \<and>
   parseTimestampBranch textDecodeAscii [0x08] [] [] 3 = Inr ([], [], [(Sha256, Timestamp [] [])])"
proof -
  have a: "parseOperation [0xf0, 0x01, 0x2a] = Inr (Append [0x2a], [])"
    by (simp add: parseOperation_def readByte_def tag_defs readVarbytes_def readVaruint_def
          readVaruint_loop_Cons readBytes_def)
  have s: "parseOperation [0x08] = Inr (Sha256, [])"
    by (simp add: parseOperation_def readByte_def tag_defs)
  show ?thesis
    using parser_accepts_node_without_branch
        [of "replicate 20 0x11" HashSha1 textDecodeAscii "[0xf0, 0x01, 0x2a]" "Append [0x2a]" 0 "[]" "[]"]
      parser_accepts_node_without_branch
        [of "replicate 20 0x11" HashSha1 textDecodeAscii "[0x08]" Sha256 3 "[]" "[]"]
      a s
    by (simp add: tag_defs MAX_DEPTH_def)
qed

section \<open>C4: one result per attestation, in depth-first order\<close>

text \<open>
  C4, as stated, names Verified or Failed as the result for a Bitcoin attestation. The
  hypotheses of C4 say nothing about the block lookup, and \<open>verifyBitcoin\<close> turns a
  lookup that throws into an Error result: the file below passes the digest check, its
  one operation applies, and the result for its Bitcoin attestation is neither Verified
  nor Failed. Counterexample to C4.
\<close>

theorem verifyFile_bitcoin_error_counterexample:
  "verifyFile idCrypto noBlocks textDecodeAscii zeros32 bitcoinFile =
     Inr [ErrorResult (CouldNotFetchBitcoinBlock 5 (Rejected ''Network error'')),
          Skipped (LitecoinNotVerified 9)] \<and>
   \<not> claimedResultFor (Bitcoin 5)
       (ErrorResult (CouldNotFetchBitcoinBlock 5 (Rejected ''Network error'')))"
  by (simp add: verifyFile_def parse_bitcoinFile idCrypto_def constantTimeEqual_iff
        MAX_DEPTH_def verifyBitcoin_def noBlocks_def u8set_def newUint8Array_def)

text \<open>
  C4, amended. When the file parses, the digest check passes, every operation on every
  path applies and the tree is at most 256 deep, \<open>verifyFile\<close> returns a list (it does
  not throw) that has exactly one result for each attestation of the tree, in depth-first
  order with the results of a node's attestations before those of its continuations:
  the result at each position is \<open>checkAttestation\<close> of the attestation at that position
  with the message of its path. The result is Verified, Failed or, when the block lookup
  throws, Error for a Bitcoin attestation, Pending for a pending one, and Skipped for
  Litecoin, Ethereum and Unknown.
\<close>

theorem verifyFile_one_result_per_attestation:
  assumes "parseOts decode otsData = Inr ots"
    and "hashContents cr fileData (hashOp ots) = Inr (fileDigest ots)"
    and "opsSucceed cr (timestamp ots) (fileDigest ots)"
    and "treeDepth (timestamp ots) \<le> MAX_DEPTH"
  shows "\<exists>results. verifyFile cr getBlockInfo decode fileData otsData = Inr results \<and>
      results = map (\<lambda>(a, m). checkAttestation getBlockInfo a m)
                  (attestationPaths cr (timestamp ots) (fileDigest ots)) \<and>
      map fst (attestationPaths cr (timestamp ots) (fileDigest ots)) =
        allAttestations (timestamp ots) \<and>
      list_all2 resultFor (allAttestations (timestamp ots)) results"
proof -
  let ?paths = "attestationPaths cr (timestamp ots) (fileDigest ots)"
  let ?results = "map (\<lambda>(a, m). checkAttestation getBlockInfo a m) ?paths"
  have w: "walkTimestamp cr getBlockInfo (timestamp ots) (fileDigest ots) 0 = ?results"
    using walkTimestamp_paths(1) [of 0 "timestamp ots" cr "fileDigest ots" getBlockInfo] assms
    by simp
  have v: "verifyFile cr getBlockInfo decode fileData otsData = Inr ?results"
    using assms(1,2) w by (simp add: verifyFile_def constantTimeEqual_iff)
  have f: "map fst ?paths = allAttestations (timestamp ots)"
    using attestationPaths_fst(1) assms(3) .
  have "list_all2 resultFor (map fst ?paths) ?results"
    by (simp add: list_all2_map1 list_all2_map2 list_all2_same checkAttestation_resultFor
          case_prod_beta)
  with v f show ?thesis by simp
qed

theorem verifyFile_one_result_per_attestation_witness:
  "verifyFile idCrypto oneBlock textDecodeAscii zeros32 bitcoinFile =
     Inr [Verified 5 ''00'' 1433919547, Skipped (LitecoinNotVerified 9)]"
proof -
  let ?ots = "\<lparr>hashOp = HashSha256, fileDigest = zeros32,
     timestamp = Timestamp [Bitcoin 5] [(Append [0x07], Timestamp [Litecoin 9] [])]\<rparr>"
  have p: "parseOts textDecodeAscii bitcoinFile = Inr ?ots" by (rule parse_bitcoinFile)
  have h: "hashContents idCrypto zeros32 (hashOp ?ots) = Inr (fileDigest ?ots)"
    by (simp add: idCrypto_def)
  have s: "opsSucceed idCrypto (timestamp ?ots) (fileDigest ?ots)"
    by (simp add: u8set_def newUint8Array_def)
  have d: "treeDepth (timestamp ?ots) \<le> MAX_DEPTH" by (simp add: MAX_DEPTH_def)
  from verifyFile_one_result_per_attestation [OF p h s d, of oneBlock]
  show ?thesis
    by (auto simp: u8set_def newUint8Array_def verifyBitcoin_def oneBlock_def merkleRoot_zero
          constantTimeEqual_iff)
qed

section \<open>C5: the upgrade walks the original continuations only\<close>



section \<open>C6: the file that \<open>stampHash\<close> assembles\<close>

text \<open>
  C6, as stated, holds for every list of response bodies that are well-formed
  Timestamps. \<open>stampHash\<close> puts one fork marker before each response but the last,
  and a fork marker stands before one branch: a response that is a Timestamp of two
  sibling branches begins with a fork marker of its own, and behind the marker of
  \<open>stampHash\<close> the parser takes that byte for an operation tag. Both calendars return
  the well-formed Timestamp \<open>twoBitcoin\<close>; the assembled bytes do not parse.
  Counterexample to C6.
\<close>

theorem stampHash_forked_response_counterexample:
  "parseTimestampFromBytes textDecodeAscii twoBitcoin =
     Inr (Timestamp [Bitcoin 5, Bitcoin 6] []) \<and>
   stampHash idCrypto forkPost nonce16 digestHex =
     Inr (stampPrefix @ [0xff] @ twoBitcoin @ twoBitcoin) \<and>
   parseOts textDecodeAscii (stampPrefix @ [0xff] @ twoBitcoin @ twoBitcoin) =
     Inl (UnknownOperationTag 0xff)"
proof -
  have ne: "twoBitcoin \<noteq> []" "length twoBitcoin \<le> 65536"
    by (simp_all add: twoBitcoin_def att_tag_defs)
  have sub: "stampHash_submit forkPost (sha256 idCrypto (nonce16 @ digestAA))
      CALENDAR_SERVERS ([], []) =
    ([(''https://alice.btc.calendar.opentimestamps.org'', twoBitcoin),
      (''https://bob.btc.calendar.opentimestamps.org'', twoBitcoin)], [])"
    using submit_both [OF ne] unfolding forkPost_def .
  have st: "stampHash idCrypto forkPost nonce16 digestHex =
     Inr (stampPrefix @ [0xff] @ twoBitcoin @ twoBitcoin)"
    using stampHash_bytes [OF hexToBytes_digestHex _ sub]
      stampPrefix_eq [of "[0xff] @ twoBitcoin @ twoBitcoin"]
    by (simp add: digestAA_def tag_defs)
  let ?leaf = "[0xff] @ twoBitcoin @ twoBitcoin"
  have o: "parseOperation (twoBitcoin @ twoBitcoin) = Inl (UnknownOperationTag 0xff)"
    by (simp add: parseOperation_def readByte_def twoBitcoin_def tag_defs)
  have b: "parseTimestampBranch textDecodeAscii (twoBitcoin @ twoBitcoin) [] [] 2 =
      Inl (UnknownOperationTag 0xff)"
    using o by (simp add: parseTimestampBranch.simps peek_def twoBitcoin_def tag_defs)
  have f: "parseTimestamp_forks textDecodeAscii ?leaf [] [] 2 = Inl (UnknownOperationTag 0xff)"
    using b by (simp add: parseTimestamp_forks.simps [of _ "0xff # x" for x]
        remaining_def peek_def readByte_def tag_defs)
  have "parseTimestamp textDecodeAscii ?leaf 2 = Inl (UnknownOperationTag 0xff)"
    using f by (subst parseTimestamp.simps) (simp add: MAX_DEPTH_def)
  moreover have "(1::nat) + 1 = 2" by simp
  ultimately have t2: "parseTimestamp textDecodeAscii ?leaf (1 + 1) = Inl (UnknownOperationTag 0xff)"
    by (simp only:)
  have o1: "parseOperation ([0x08] @ ?leaf) = Inr (Sha256, ?leaf)"
    by (simp add: parseOperation_def readByte_def tag_defs)
  have b1: "parseTimestampBranch textDecodeAscii ([0x08] @ ?leaf) [] [] 1 =
      Inl (UnknownOperationTag 0xff)"
    using o1 t2 by (rule parseTimestampBranch_operation_error)
  have t1: "parseTimestamp textDecodeAscii ([0x08] @ ?leaf) (0 + 1) = Inl (UnknownOperationTag 0xff)"
    using b1 by (intro parseTimestamp_single_branch_error) (simp_all add: MAX_DEPTH_def tag_defs)
  have o0: "parseOperation ([0xf1, 0x10] @ nonce16 @ [0x08] @ ?leaf) =
      Inr (Prepend nonce16, [0x08] @ ?leaf)"
    using readVarbytes_short [of 16 nonce16 "[0x08] @ ?leaf"]
    by (simp add: parseOperation_def readByte_def tag_defs nonce16_def)
  have b0: "parseTimestampBranch textDecodeAscii ([0xf1, 0x10] @ nonce16 @ [0x08] @ ?leaf) [] [] 0 =
      Inl (UnknownOperationTag 0xff)"
    using o0 t1 by (rule parseTimestampBranch_operation_error)
  have t0: "parseTimestamp textDecodeAscii ([0xf1, 0x10] @ nonce16 @ [0x08] @ ?leaf) 0 =
      Inl (UnknownOperationTag 0xff)"
    using b0 by (intro parseTimestamp_single_branch_error) (simp_all add: MAX_DEPTH_def tag_defs)
  have p: "parseOts textDecodeAscii (stampPrefix @ ?leaf) = Inl (UnknownOperationTag 0xff)"
    using parseOts_body [of digestAA HashSha256 textDecodeAscii
        "[0xf1, 0x10] @ nonce16 @ [0x08] @ ?leaf"] t0
    by (simp add: stampPrefix_def digestAA_def tag_defs)
  show ?thesis using parseTimestamp_twoBitcoin st p by simp
qed

text \<open>
  C6, amended. For every digest of 32 bytes (given in hex), every nonce of 16 bytes and
  every non-empty list of successful calendar responses each of which is one
  self-delimiting branch at the leaf (the parser reads it as exactly one branch whatever
  follows it), \<open>stampHash\<close> returns bytes that parse to a file with hash operation
  SHA-256, the input digest, and the tree \<open>Prepend(nonce)\<close>, then \<open>Sha256\<close>, then a leaf
  node whose branches are those of the responses, in the order of the servers.
\<close>

theorem stampHash_parses_to_chain:
  assumes "hexToBytes sha256Hex = Inr digest" and "length digest = 32"
    and "length nonce = 16"
    and "stampHash_submit post (sha256 cr (nonce @ digest)) CALENDAR_SERVERS ([], []) =
           (responses, errs)"
    and "responses \<noteq> []"
    and "list_all2 (\<lambda>r b. isBranch decode 2 (snd r) (fst b) (snd b)) responses branches"
  shows "\<exists>out. stampHash cr post nonce sha256Hex = Inr out \<and>
    parseOts decode out =
      Inr \<lparr>hashOp = HashSha256, fileDigest = digest,
           timestamp =
             Timestamp []
               [(Prepend nonce,
                 Timestamp []
                   [(Sha256,
                     Timestamp (concat (map fst branches)) (concat (map snd branches)))])]\<rparr>"
proof -
  let ?leaf = "concat (map (\<lambda>r. TAG_FORK # snd r) (butlast responses)) @ snd (last responses)"
  let ?node = "Timestamp (concat (map fst branches)) (concat (map snd branches))"
  have l: "parseTimestamp decode ?leaf 2 = Inr (?node, [])"
    using assms(6,5) by (rule parseTimestamp_leaf) (simp add: MAX_DEPTH_def)
  have n: "length nonce \<le> 1048576" using assms(3) by simp
  have t: "parseTimestamp decode ([TAG_PREPEND] @ writeVarbytes [] nonce @ [TAG_SHA256] @ ?leaf) 0 =
      Inr (Timestamp [] [(Prepend nonce, Timestamp [] [(Sha256, ?node)])], [])"
    using n l by (rule parseTimestamp_stamp_tree)
  have d: "length digest = HASH_OP_DIGEST_LEN HashSha256" using assms(2) by simp
  have "parseOts decode (HEADER_MAGIC @ [0x01, HASH_OP_TO_TAG HashSha256] @ digest @
      [TAG_PREPEND] @ writeVarbytes [] nonce @ [TAG_SHA256] @ ?leaf) =
      Inr \<lparr>hashOp = HashSha256, fileDigest = digest,
           timestamp = Timestamp [] [(Prepend nonce, Timestamp [] [(Sha256, ?node)])]\<rparr>"
    using parseOts_body [OF d, of decode
        "[TAG_PREPEND] @ writeVarbytes [] nonce @ [TAG_SHA256] @ ?leaf"] t
    by simp
  with stampHash_bytes [OF assms(1,2,4,5)] show ?thesis by simp
qed

text \<open>
  The instance of C6: both calendars return the Pending attestation of \<open>aliceUri\<close>
  (its payload the varbytes of the varbytes of the URI); the parsed file has exactly two
  Pending attestations.
\<close>

theorem stampHash_parses_to_chain_witness:
  "stampHash idCrypto pendingPost nonce16 digestHex =
     Inr (stampPrefix @ [0xff] @ pendingResponse aliceUri @ pendingResponse aliceUri) \<and>
   parseOts textDecodeAscii
       (stampPrefix @ [0xff] @ pendingResponse aliceUri @ pendingResponse aliceUri) =
     Inr \<lparr>hashOp = HashSha256, fileDigest = digestAA,
          timestamp =
            Timestamp []
              [(Prepend nonce16,
                Timestamp []
                  [(Sha256, Timestamp [Pending aliceUri, Pending aliceUri] [])])]\<rparr> \<and>
   length (filter (\<lambda>a. a = Pending aliceUri)
      (allAttestations
        (Timestamp []
              [(Prepend nonce16,
                Timestamp []
                  [(Sha256, Timestamp [Pending aliceUri, Pending aliceUri] [])])]))) = 2"
proof -
  have len: "length aliceUri < 127" by (simp add: aliceUri_def)
  have l45: "length aliceUri = 45" by (simp add: aliceUri_def)
  have ne: "pendingResponse aliceUri \<noteq> []" "length (pendingResponse aliceUri) \<le> 65536"
    using l45 by (simp_all add: pendingResponse_short [OF len] att_tag_defs textEncode_def)
  have sub: "stampHash_submit pendingPost (sha256 idCrypto (nonce16 @ digestAA))
      CALENDAR_SERVERS ([], []) =
    ([(''https://alice.btc.calendar.opentimestamps.org'', pendingResponse aliceUri),
      (''https://bob.btc.calendar.opentimestamps.org'', pendingResponse aliceUri)], [])"
    using submit_both [OF ne] unfolding pendingPost_def .
  have st: "stampHash idCrypto pendingPost nonce16 digestHex =
     Inr (stampPrefix @ [0xff] @ pendingResponse aliceUri @ pendingResponse aliceUri)"
    using stampHash_bytes [OF hexToBytes_digestHex _ sub]
      stampPrefix_eq [of "[0xff] @ pendingResponse aliceUri @ pendingResponse aliceUri"]
    by (simp add: digestAA_def tag_defs)
  have br: "isBranch textDecodeAscii 2 (pendingResponse aliceUri) [Pending aliceUri] []"
    using parseTimestampBranch_pendingResponse [OF len, of textDecodeAscii]
    by (simp add: isBranch_def textDecodeAscii_textEncode)
  have all: "list_all2 (\<lambda>r b. isBranch textDecodeAscii 2 (snd r) (fst b) (snd b))
      [(''https://alice.btc.calendar.opentimestamps.org'', pendingResponse aliceUri),
       (''https://bob.btc.calendar.opentimestamps.org'', pendingResponse aliceUri)]
      [([Pending aliceUri], []), ([Pending aliceUri], [])]"
    using br by simp
  have d: "length digestAA = 32" and n: "length nonce16 = 16"
    by (simp_all add: digestAA_def nonce16_def)
  from stampHash_parses_to_chain [OF hexToBytes_digestHex d n sub _ all] st
  show ?thesis by auto
qed

section \<open>C7: the digest check of \<open>verifyFile\<close>\<close>



section \<open>C8: the operation engine against its reference definition\<close>

text \<open>
  C8. \<open>applyOperation\<close> agrees with the reference definition \<open>applySpec\<close> for every
  operation and message: Append gives \<open>msg || d\<close>, Prepend \<open>d || msg\<close>, Reverse the
  reversed bytes, Hexlify the lowercase hex digits in ASCII (twice as long as the
  message), the three hash operations the digest of the hash collaborator, and the
  function fails exactly for Keccak256. The result is a new value and the message is
  not changed: reversing the result of Reverse gives the message back. (That the result
  is a freshly allocated buffer is a fact about memory, outside this model.)
\<close>

theorem applyOperation_matches_reference:
  "applyOperation cr op msg =
     (case applySpec cr op msg of None \<Rightarrow> Inl Keccak256NotSupported | Some out \<Rightarrow> Inr out) \<and>
   ((\<exists>e. applyOperation cr op msg = Inl e) = (op = Keccak256)) \<and>
   (\<exists>out. applyOperation cr Hexlify msg = Inr out \<and> length out = 2 * length msg) \<and>
   (\<exists>out. applyOperation cr Reverse msg = Inr out \<and> out = rev msg \<and> rev out = msg)"
proof -
  have len: "length (asciiLowercaseHex m) = 2 * length m" for m
    by (induction m) (simp_all add: asciiLowercaseHex_def)
  show ?thesis
    by (cases op) (simp_all add: u8set_fill textEncode_bytesToHex len)
qed

theorem applyOperation_matches_reference_witness:
  "applyOperation \<lparr>sha256 = id, sha1 = id, ripemd160 = id\<rparr> (Append [3]) [1, 2] = Inr [1, 2, 3] \<and>
   applyOperation \<lparr>sha256 = id, sha1 = id, ripemd160 = id\<rparr> Hexlify [0xab] = Inr [0x61, 0x62] \<and>
   applyOperation \<lparr>sha256 = id, sha1 = id, ripemd160 = id\<rparr> Keccak256 [1] =
     Inl Keccak256NotSupported"
  using applyOperation_matches_reference
      [of "\<lparr>sha256 = id, sha1 = id, ripemd160 = id\<rparr>" "Append [3]" "[1, 2]"]
    applyOperation_matches_reference
      [of "\<lparr>sha256 = id, sha1 = id, ripemd160 = id\<rparr>" "Hexlify" "[0xab]"]
    applyOperation_matches_reference
      [of "\<lparr>sha256 = id, sha1 = id, ripemd160 = id\<rparr>" "Keccak256" "[1]"]
  by (simp add: asciiLowercaseHex_def hexDigit_def)

section \<open>C9: upgrading a proof without pending attestations\<close>

text \<open>
  C9. When no attestation of the tree is pending, \<open>upgradeProof\<close> returns
  \<open>alreadyComplete = true\<close>, \<open>upgraded = 0\<close>, \<open>stillPending = 0\<close> and no errors, and the
  file it leaves behind is the file it was given: hash operation, digest and tree.
\<close>

theorem upgradeProof_already_complete:
  assumes "\<forall>a \<in> set (allAttestations (timestamp ots)). \<forall>uri. a \<noteq> Pending uri"
  shows "upgradeProof cr fetch decode ots =
    (ots, \<lparr>upgraded = 0, stillPending = 0, errors = [], alreadyComplete = True\<rparr>)"
proof -
  from assms have "\<not> hasPendingAttestation (timestamp ots)"
    by (auto simp: hasPendingAttestation_iff)
  then show ?thesis by (simp add: upgradeProof_def)
qed

theorem upgradeProof_already_complete_witness:
  "upgradeProof idCrypto noFetch textDecodeAscii bitcoinOts =
    (bitcoinOts, \<lparr>upgraded = 0, stillPending = 0, errors = [], alreadyComplete = True\<rparr>)"
  using upgradeProof_already_complete [of bitcoinOts idCrypto noFetch textDecodeAscii]
  by (simp add: bitcoinOts_def)

section \<open>C10: trailing bytes in the payload of a height attestation\<close>

text \<open>
  C10 says that a Bitcoin, Litecoin or Ethereum attestation whose varbytes payload is a
  varuint followed by any bytes is parsed to the height that the varuint encodes, and
  that writing the parsed file emits the shortest varuint of that height. The code
  breaks this on a payload whose varuint has 148 bytes or more, such as 147 bytes
  \<open>0x80\<close> followed by \<open>0x00\<close> (a padded zero). Every payload of these bytes is 0, so
  both guards of \<open>readVaruint\<close> let them pass; at the 148th byte \<open>2 ** 1029\<close> is
  \<open>Infinity\<close>, \<open>value += 0 * Infinity\<close> makes \<open>value\<close> \<open>NaN\<close>, and \<open>readVaruint\<close>
  returns it: \<open>parseAttestation\<close> yields an attestation of height \<open>NaN\<close>, not of
  height 0. On that height \<open>writeVaruint\<close> never leaves its loop (\<open>NaN & 0x7f\<close> is 0,
  \<open>Math.floor(NaN / 128)\<close> is \<open>NaN\<close>, and \<open>NaN !== 0\<close> holds), so the file is not
  written again. The comment of \<open>readVaruint\<close> asks for values within
  \<open>Number.MAX_SAFE_INTEGER\<close>; the two guards miss this case.

  In the model the loop reaches that byte with value 0 and shift 1029, both guards
  passed; there the model has the marker \<open>ValueIsNaN\<close> and no height.
\<close>

lemma readVaruint_loop_padding:
  "s + 7 * n \<le> 1029 \<Longrightarrow>
     readVaruint_loop v s (replicate n 0x80 @ c) = readVaruint_loop v (s + 7 * n) c"
proof (induction n arbitrary: s)
  case 0
  then show ?case by simp
next
  case (Suc n)
  then have "s + 7 + 7 * n \<le> 1029" by simp
  then have "readVaruint_loop v (s + 7) (replicate n 0x80 @ c) =
      readVaruint_loop v (s + 7 + 7 * n) c"
    by (rule Suc.IH)
  moreover from Suc.prems have "\<not> 1024 \<le> s" by simp
  ultimately show ?case by (simp add: readVaruint_loop_Cons add.assoc)
qed

lemma readVaruint_padded_zero:
  "readVaruint (replicate 147 0x80 @ c) = readVaruint_loop 0 1029 c"
  using readVaruint_loop_padding [of 0 147 0 c] by (simp add: readVaruint_def)

text \<open>
  Where the varuint \<open>v\<close> of the payload is read as a number \<open>h\<close>, the code does what
  C10 says: the parser accepts the attestation with height \<open>h\<close> and drops the bytes
  \<open>extra\<close> after \<open>v\<close>; writing the attestation emits the tag and, as payload,
  \<open>writeVaruint\<close> of the height alone, which is no longer than \<open>v\<close>, carries no
  trailing bytes and is read back as the same height.
\<close>

lemma height_attestation_number_payload:
  assumes "readVarbytes c1 = Inr (v @ extra, c2)" and "readVaruint v = Inr (h, [])"
  shows "parseAttestation decode (ATT_TAG_BITCOIN @ c1) = Inr (Bitcoin h, c2) \<and>
         parseAttestation decode (ATT_TAG_LITECOIN @ c1) = Inr (Litecoin h, c2) \<and>
         parseAttestation decode (ATT_TAG_ETHEREUM @ c1) = Inr (Ethereum h, c2) \<and>
         writeAttestation [] (Bitcoin h) =
           TAG_ATTESTATION # ATT_TAG_BITCOIN @ writeVarbytes [] (writeVaruint [] h) \<and>
         writeAttestation [] (Litecoin h) =
           TAG_ATTESTATION # ATT_TAG_LITECOIN @ writeVarbytes [] (writeVaruint [] h) \<and>
         writeAttestation [] (Ethereum h) =
           TAG_ATTESTATION # ATT_TAG_ETHEREUM @ writeVarbytes [] (writeVaruint [] h) \<and>
         length (writeVaruint [] h) \<le> length v \<and>
         readVaruint (writeVaruint [] h) = Inr (h, [])"
proof -
  have "readVaruint (v @ extra) = Inr (h, extra)"
    using readVaruint_loop_prefix [of 0 0 v h "[]" extra] assms(2) by (simp add: readVaruint_def)
  then have s: "varuintFromSlice (v @ extra) = Inr h" by (simp add: varuintFromSlice_def)
  from assms(2) obtain pre where "v = pre @ []" "pre \<noteq> []" "h = 0 + 2 ^ 0 * varuintValue pre"
    unfolding readVaruint_def using readVaruint_loop_value by blast
  then have "h < 128 ^ length v" "0 < length v"
    using varuintValue_bound [of v] by simp_all
  then have len: "length (writeVaruint [] h) \<le> length v" by (rule writeVaruint_length)
  have "h < 2 ^ 53"
    using readVaruint_loop_safe [of 0 0 v h "[]"] assms(2) by (simp add: readVaruint_def)
  then have rd: "readVaruint (writeVaruint [] h) = Inr (h, [])"
    using readVaruint_writeVaruint [of h "[]"] by simp
  show ?thesis
    using parseAttestation_height [OF assms(1) s] writeAttestation_height len rd by simp
qed

lemma height_attestation_number_payload_example:
  "parseAttestation textDecodeAscii (ATT_TAG_BITCOIN @ [0x04, 0x85, 0x00, 0xaa, 0xbb]) =
     Inr (Bitcoin 5, []) \<and>
   writeAttestation [] (Bitcoin 5) = [0x00] @ ATT_TAG_BITCOIN @ [0x01, 0x05]"
proof -
  have a: "readVarbytes [0x04, 0x85, 0x00, 0xaa, 0xbb] = Inr ([0x85, 0x00] @ [0xaa, 0xbb], [])"
    using readVarbytes_short [of 4 "[0x85, 0x00, 0xaa, 0xbb]" "[]"] by simp
  have b: "readVaruint [0x85, 0x00] = Inr (5, [])"
    by (simp add: readVaruint_def readVaruint_loop_Cons)
  have w: "writeVaruint [] 5 = [0x05]" "writeVaruint [] 1 = [0x01]"
    by (simp_all add: writeVaruint_step [of "[]"])
  from height_attestation_number_payload [OF a b, of textDecodeAscii] w show ?thesis
    using writeVaruint_append [of "[0x01]" 5]
    by (simp add: writeVarbytes_def extend_def tag_defs)
qed

end
